theory Spec2Isabelle
  imports Main
begin

section \<open>Values, errors and the state dictionary\<close>

text \<open>
  The server never looks inside a value: it stores it, compares it with \<open>==\<close> and
  tests it against \<open>None\<close>. A value is therefore \<open>PyNone\<close> or an opaque payload of
  type \<open>'v\<close>, whose HOL equality stands for Python's structural \<open>==\<close>.
  Keys are an opaque hashable type \<open>'k\<close>.
\<close>

datatype 'v pyval = PyNone | PyVal 'v

datatype error = KeyError | AttributeError | TypeError | ValueError | ZMQError

text \<open>
  A Python \<open>dict\<close> keeps insertion order (\<open>popitem\<close> removes the item inserted last)
  and compares without regard to order, so the state is an association list in
  insertion order; equality of dictionaries is \<open>dict_eq\<close>, never list equality.
\<close>

type_synonym ('k, 'v) pydict = "('k \<times> 'v pyval) list"

text \<open>\<open>d.get(k)\<close>: the value stored at \<open>k\<close>, \<open>None\<close> when \<open>k\<close> is absent.\<close>

definition dict_get :: "('k, 'v) pydict \<Rightarrow> 'k \<Rightarrow> 'v pyval" where
  "dict_get d k = (case map_of d k of None \<Rightarrow> PyNone | Some v \<Rightarrow> v)"

text \<open>\<open>d[k] = v\<close>: an existing key keeps its position, a new key goes last.\<close>

fun dict_setitem :: "'k \<Rightarrow> 'v pyval \<Rightarrow> ('k, 'v) pydict \<Rightarrow> ('k, 'v) pydict" where
  "dict_setitem k v [] = [(k, v)]"
| "dict_setitem k v ((k', v') # d) =
     (if k' = k then (k, v) # d else (k', v') # dict_setitem k v d)"

definition dict_remove :: "'k \<Rightarrow> ('k, 'v) pydict \<Rightarrow> ('k, 'v) pydict" where
  "dict_remove k d = filter (\<lambda>kv. fst kv \<noteq> k) d"

text \<open>
  \<open>d1 == d2\<close> on dictionaries, as CPython decides it: the same number of items, and
  every item of \<open>d1\<close> is found in \<open>d2\<close> with an equal value.
\<close>

definition dict_eq :: "('k, 'v) pydict \<Rightarrow> ('k, 'v) pydict \<Rightarrow> bool" where
  "dict_eq d1 d2 \<longleftrightarrow>
     length d1 = length d2 \<and> list_all (\<lambda>kv. map_of d2 (fst kv) = Some (snd kv)) d1"

subsection \<open>Calls of dictionary methods by name\<close>

text \<open>
  The argument of \<open>update\<close> (and of \<open>__init__\<close>) is a sequence whose elements are
  key/value pairs; an element that is no pair (\<open>BadItem\<close>) makes CPython raise
  \<open>TypeError\<close> after the pairs before it have been stored.
\<close>

datatype ('k, 'v) upd_item = Item 'k "'v pyval" | BadItem

text \<open>
  A request names a dictionary method (\<open>item\<close>) and carries its \<open>args\<close> and
  \<open>kwargs\<close>; \<open>getattr(self.state, attr_name)(*args, **kwargs)\<close> runs it. A call is
  the triple, by method: the seven names of \<open>ACTIONS_THAT_MUTATE\<close>, some readers,
  \<open>__init__\<close> (which updates the dictionary in place, whatever the tuple says),
  \<open>NoAttr n\<close> for a name \<open>n\<close> that \<open>dict\<close> does not have, and \<open>BadArgs n\<close> for a
  method \<open>n\<close> called with arguments it rejects before doing anything (wrong number,
  unhashable key).
\<close>

datatype ('k, 'v) call =
    SetItem 'k "'v pyval"
  | DelItem 'k
  | SetDefault 'k "'v pyval"
  | Pop 'k "'v pyval option"
  | PopItem
  | Clear
  | Update "('k, 'v) upd_item list"
  | Get 'k "'v pyval"
  | GetItem 'k
  | Contains 'k
  | Len
  | Copy
  | Init "('k, 'v) upd_item list"
  | NoAttr string
  | BadArgs string

fun attr_name :: "('k, 'v) call \<Rightarrow> string" where
  "attr_name (SetItem k v) = ''__setitem__''"
| "attr_name (DelItem k) = ''__delitem__''"
| "attr_name (SetDefault k v) = ''setdefault''"
| "attr_name (Pop k d) = ''pop''"
| "attr_name PopItem = ''popitem''"
| "attr_name Clear = ''clear''"
| "attr_name (Update xs) = ''update''"
| "attr_name (Get k d) = ''get''"
| "attr_name (GetItem k) = ''__getitem__''"
| "attr_name (Contains k) = ''__contains__''"
| "attr_name Len = ''__len__''"
| "attr_name Copy = ''copy''"
| "attr_name (Init xs) = ''__init__''"
| "attr_name (NoAttr n) = n"
| "attr_name (BadArgs n) = n"

definition ACTIONS_THAT_MUTATE :: "string list" where
  "ACTIONS_THAT_MUTATE =
     [''__setitem__'', ''__delitem__'', ''setdefault'', ''pop'', ''popitem'', ''clear'',
      ''update'']"

section \<open>Messages, endpoints, replies\<close>

text \<open>
  \<open>get_random_ipc\<close> builds a path from \<open>uuid1()\<close>, which never repeats; the model
  draws the uuid from a counter kept in the server. \<open>Ipc uuid\<close> is the path built
  from \<open>uuid\<close>; \<open>Addr a\<close> is any other address a socket can be bound to.
\<close>

datatype ipc = Ipc nat | Addr string

definition get_ipc_path :: "nat \<Rightarrow> ipc" where
  "get_ipc_path uuid = Ipc uuid"

text \<open>
  The identity of a client is a byte string that the client may choose. The server
  routes replies by it, and \<open>push(ident, msg)\<close>, reached by the action \<open>push\<close>,
  binds a socket to it: \<open>Bindable a\<close> is an identity that is the address \<open>a\<close> of
  an endpoint, \<open>Ident b\<close> any other bytes, on which \<open>bind\<close> raises.
\<close>

datatype ident = Ident string | Bindable ipc

type_synonym ('k, 'v) testfn =
  "('k, 'v) pydict \<Rightarrow> 'v pyval list \<Rightarrow> (string \<times> 'v pyval) list \<Rightarrow> error + bool"

text \<open>
  A request is a dictionary with optional fields (class \<open>MSGS\<close>); \<open>None\<close> is a
  missing field. \<open>msg_call\<close> is the field \<open>item\<close> together with the \<open>args\<close> and
  \<open>kwargs\<close> of the dictionary method it names; \<open>msg_args\<close> and \<open>msg_kwargs\<close> are
  the same two fields as a condition handler reads them, the arguments of the
  predicate. \<open>msg_locked_state\<close> is no field of the request: it is the dictionary
  the client sends on the lock's private channel while \<open>lock_state\<close> waits.
\<close>

record ('k, 'v) msg =
  msg_action :: "string option"
  msg_call :: "('k, 'v) call option"
  msg_args :: "'v pyval list option"
  msg_kwargs :: "(string \<times> 'v pyval) list option"
  msg_testfn :: "('k, 'v) testfn option"
  msg_key :: "'k option"
  msg_keys :: "'k list option"
  msg_value :: "'v pyval option"
  msg_locked_state :: "('k, 'v) pydict"

text \<open>Everything the server pickles and sends, on a reply or on a push.\<close>

datatype ('k, 'v) pyobj =
    OValue "'v pyval"
  | OBool bool
  | OInt int
  | OItem 'k "'v pyval"
  | ODict "('k, 'v) pydict"
  | OPath ipc
  | OLock ipc "('k, 'v) pydict"
  | OAttr string
  | OExc error
  | OMsg "('k, 'v) msg"

text \<open>
  \<open>dict_call c d\<close> is \<open>getattr(d, attr_name)(*args, **kwargs)\<close>: the exception or
  the result, and the dictionary afterwards (a call that raises may already have
  changed it: \<open>update\<close>).
\<close>

fun dict_update :: "('k, 'v) upd_item list \<Rightarrow> ('k, 'v) pydict \<Rightarrow> error option \<times> ('k, 'v) pydict" where
  "dict_update [] d = (None, d)"
| "dict_update (Item k v # xs) d = dict_update xs (dict_setitem k v d)"
| "dict_update (BadItem # xs) d = (Some TypeError, d)"

fun dict_call :: "('k, 'v) call \<Rightarrow> ('k, 'v) pydict \<Rightarrow> (error + ('k, 'v) pyobj) \<times> ('k, 'v) pydict" where
  "dict_call (SetItem k v) d = (Inr (OValue PyNone), dict_setitem k v d)"
| "dict_call (DelItem k) d =
     (case map_of d k of None \<Rightarrow> (Inl KeyError, d)
      | Some v \<Rightarrow> (Inr (OValue PyNone), dict_remove k d))"
| "dict_call (SetDefault k v) d =
     (case map_of d k of None \<Rightarrow> (Inr (OValue v), dict_setitem k v d)
      | Some w \<Rightarrow> (Inr (OValue w), d))"
| "dict_call (Pop k dflt) d =
     (case map_of d k of
        Some v \<Rightarrow> (Inr (OValue v), dict_remove k d)
      | None \<Rightarrow> (case dflt of None \<Rightarrow> (Inl KeyError, d) | Some v \<Rightarrow> (Inr (OValue v), d)))"
| "dict_call PopItem d =
     (if d = [] then (Inl KeyError, d)
      else (Inr (OItem (fst (last d)) (snd (last d))), butlast d))"
| "dict_call Clear d = (Inr (OValue PyNone), [])"
| "dict_call (Update xs) d =
     (case dict_update xs d of (None, d') \<Rightarrow> (Inr (OValue PyNone), d')
      | (Some e, d') \<Rightarrow> (Inl e, d'))"
| "dict_call (Get k dflt) d =
     (case map_of d k of None \<Rightarrow> (Inr (OValue dflt), d) | Some v \<Rightarrow> (Inr (OValue v), d))"
| "dict_call (GetItem k) d =
     (case map_of d k of None \<Rightarrow> (Inl KeyError, d) | Some v \<Rightarrow> (Inr (OValue v), d))"
| "dict_call (Contains k) d = (Inr (OBool (map_of d k \<noteq> None)), d)"
| "dict_call Len d = (Inr (OInt (int (length d))), d)"
| "dict_call Copy d = (Inr (ODict d), d)"
| "dict_call (Init xs) d =
     (case dict_update xs d of (None, d') \<Rightarrow> (Inr (OValue PyNone), d')
      | (Some e, d') \<Rightarrow> (Inl e, d'))"
| "dict_call (NoAttr n) d = (Inl AttributeError, d)"
| "dict_call (BadArgs n) d = (Inl TypeError, d)"

section \<open>The queue of pending watchers\<close>

text \<open>
  \<open>Queue\<close> wraps a deque, written here left to right: \<open>put\<close> is \<open>appendleft\<close>,
  and \<open>drain\<close> copies the deque, clears it and yields the copy's elements popped
  from the right, so it returns them oldest first and leaves the queue empty.
\<close>

type_synonym 'a queue = "'a list"

definition put :: "'a \<Rightarrow> 'a queue \<Rightarrow> 'a queue" where
  "put something q = something # q"

definition drain :: "'a queue \<Rightarrow> 'a list \<times> 'a queue" where
  "drain q = (rev q, [])"

text \<open>\<open>for i in to_put_back: q.put(i)\<close>\<close>

definition put_all :: "'a list \<Rightarrow> 'a queue \<Rightarrow> 'a queue" where
  "put_all to_put_back q = foldl (\<lambda>q i. put i q) q to_put_back"

section \<open>The server\<close>

text \<open>
  The key of \<open>change_handlers\<close> is the tuple of watched keys, or \<open>'_any_'\<close> when the
  tuple is empty; the baseline is the list of the values at those keys, or a copy
  of the whole state.
\<close>

datatype 'k hkey = Any | Keys "'k list"

datatype ('k, 'v) baseline = BList "'v pyval list" | BDict "('k, 'v) pydict"

text \<open>\<open>old != new\<close> on baselines; a list never equals a dictionary.\<close>

fun baseline_ne :: "('k, 'v) baseline \<Rightarrow> ('k, 'v) baseline \<Rightarrow> bool" where
  "baseline_ne (BList a) (BList b) = (a \<noteq> b)"
| "baseline_ne (BDict a) (BDict b) = (\<not> dict_eq a b)"
| "baseline_ne (BList a) (BDict b) = True"
| "baseline_ne (BDict a) (BList b) = True"

type_synonym ('k, 'v) condition_entry =
  "ipc \<times> ('k, 'v) testfn \<times> 'v pyval list \<times> (string \<times> 'v pyval) list"

text \<open>
  The fields of \<open>ZProcServer\<close>. The two \<open>defaultdict(Queue)\<close> registries are
  association lists in insertion order of their keys (the order \<open>items()\<close>
  yields). \<open>state_lock_ident\<close> is set to \<open>None\<close> once and never read; it is left
  out. The socket is the two logs \<open>replies\<close> and \<open>pushes\<close>, oldest message first;
  \<open>uuid_clock\<close> is the source of \<open>uuid1()\<close>; \<open>sweeps\<close> counts the calls of
  \<open>resolve_all_handlers\<close> (the code keeps no such counter; it only makes the call
  observable).
\<close>

record ('k, 'v) server =
  state :: "('k, 'v) pydict"
  condition_handlers :: "('k, 'v) condition_entry queue"
  equals_handlers :: "('k \<times> 'v pyval \<times> ipc) queue"
  val_change_handlers :: "('k \<times> (ipc \<times> 'v pyval) queue) list"
  change_handlers :: "('k hkey \<times> (ipc \<times> ('k, 'v) baseline) queue) list"
  uuid_clock :: nat
  replies :: "(ident \<times> ('k, 'v) pyobj) list"
  pushes :: "(ipc \<times> ('k, 'v) pyobj) list"
  sweeps :: nat

definition init_server :: "('k, 'v) server" where
  "init_server =
     \<lparr>state = [], condition_handlers = [], equals_handlers = [], val_change_handlers = [],
      change_handlers = [], uuid_clock = 0, replies = [], pushes = [], sweeps = 0\<rparr>"

text \<open>
  A method either returns or raises, and what it did to the server before raising
  stays done: its outcome is the exception, if any, and the server afterwards.
\<close>

type_synonym ('k, 'v) outcome = "error option \<times> ('k, 'v) server"

definition get_random_ipc :: "('k, 'v) server \<Rightarrow> ipc \<times> ('k, 'v) server" where
  "get_random_ipc s = (get_ipc_path (uuid_clock s), s\<lparr>uuid_clock := Suc (uuid_clock s)\<rparr>)"

definition reply :: "ident \<Rightarrow> ('k, 'v) pyobj \<Rightarrow> ('k, 'v) server \<Rightarrow> ('k, 'v) server" where
  "reply ident m s = s\<lparr>replies := replies s @ [(ident, m)]\<rparr>"

definition push :: "ipc \<Rightarrow> ('k, 'v) pyobj \<Rightarrow> ('k, 'v) server \<Rightarrow> ('k, 'v) server" where
  "push ipc_path m s = s\<lparr>pushes := pushes s @ [(ipc_path, m)]\<rparr>"

definition get_keys_cmp :: "('k, 'v) server \<Rightarrow> 'k list \<Rightarrow> 'v pyval list" where
  "get_keys_cmp s state_keys = map (dict_get (state s)) state_keys"

text \<open>\<open>d[k].put(x)\<close> on a \<open>defaultdict(Queue)\<close>: a missing key is created, last.\<close>

fun dd_put :: "'a \<Rightarrow> 'b \<Rightarrow> ('a \<times> 'b queue) list \<Rightarrow> ('a \<times> 'b queue) list" where
  "dd_put k x [] = [(k, put x [])]"
| "dd_put k x ((k', q) # d) = (if k' = k then (k', put x q) # d else (k', q) # dd_put k x d)"

subsection \<open>Resolvers\<close>

text \<open>
  Each resolver drains a queue, pushes to the entries whose test holds, collects
  the others in \<open>to_put_back\<close> and puts them back after the loop. The loop is the
  recursion over the drained entries, \<open>to_put_back\<close> its accumulator.
\<close>

fun change_loop ::
  "('k, 'v) baseline \<Rightarrow> (ipc \<times> ('k, 'v) baseline) list \<Rightarrow> (ipc \<times> ('k, 'v) baseline) list \<Rightarrow>
   ('k, 'v) server \<Rightarrow> (ipc \<times> ('k, 'v) baseline) list \<times> ('k, 'v) server" where
  "change_loop new [] to_put_back s = (to_put_back, s)"
| "change_loop new ((ipc_path, old) # es) to_put_back s =
     (if baseline_ne old new then change_loop new es to_put_back (push ipc_path (ODict (state s)) s)
      else change_loop new es (to_put_back @ [(ipc_path, old)]) s)"

text \<open>
  The outer loop of \<open>resolve_change_handlers\<close>, over the items of the registry in
  their order. Putting back goes to the queue of the same key, which the drain
  has left empty; the loop returns the items with their new queues.
\<close>

fun change_items ::
  "('k hkey \<times> (ipc \<times> ('k, 'v) baseline) queue) list \<Rightarrow> ('k, 'v) server \<Rightarrow>
   ('k hkey \<times> (ipc \<times> ('k, 'v) baseline) queue) list \<times> ('k, 'v) server" where
  "change_items [] s = ([], s)"
| "change_items ((keys, change_handler_queue) # rest) s =
     (let new = (case keys of Any \<Rightarrow> BDict (state s) | Keys ks \<Rightarrow> BList (get_keys_cmp s ks));
          (entries, emptied) = drain change_handler_queue;
          (to_put_back, s1) = change_loop new entries [] s;
          (rest', s2) = change_items rest s1
      in ((keys, put_all to_put_back emptied) # rest', s2))"

definition resolve_change_handlers :: "('k, 'v) server \<Rightarrow> ('k, 'v) server" where
  "resolve_change_handlers s =
     (let (handlers, s') = change_items (change_handlers s) s
      in s'\<lparr>change_handlers := handlers\<rparr>)"

fun val_change_loop ::
  "'k \<Rightarrow> 'v pyval \<Rightarrow> (ipc \<times> 'v pyval) list \<Rightarrow> (ipc \<times> 'v pyval) list \<Rightarrow> ('k, 'v) server \<Rightarrow>
   (ipc \<times> 'v pyval) list \<times> ('k, 'v) server" where
  "val_change_loop key new [] to_put_back s = (to_put_back, s)"
| "val_change_loop key new ((ipc_path, old) # es) to_put_back s =
     (if old \<noteq> new
      then val_change_loop key new es to_put_back
             (push ipc_path (OValue (dict_get (state s) key)) s)
      else val_change_loop key new es (to_put_back @ [(ipc_path, old)]) s)"

fun val_change_items ::
  "('k \<times> (ipc \<times> 'v pyval) queue) list \<Rightarrow> ('k, 'v) server \<Rightarrow>
   ('k \<times> (ipc \<times> 'v pyval) queue) list \<times> ('k, 'v) server" where
  "val_change_items [] s = ([], s)"
| "val_change_items ((key, handler_list) # rest) s =
     (let new = dict_get (state s) key;
          (entries, emptied) = drain handler_list;
          (to_put_back, s1) = val_change_loop key new entries [] s;
          (rest', s2) = val_change_items rest s1
      in ((key, put_all to_put_back emptied) # rest', s2))"

definition resolve_val_change_handlers :: "('k, 'v) server \<Rightarrow> ('k, 'v) server" where
  "resolve_val_change_handlers s =
     (let (handlers, s') = val_change_items (val_change_handlers s) s
      in s'\<lparr>val_change_handlers := handlers\<rparr>)"

fun equals_loop ::
  "('k \<times> 'v pyval \<times> ipc) list \<Rightarrow> ('k \<times> 'v pyval \<times> ipc) list \<Rightarrow> ('k, 'v) server \<Rightarrow>
   ('k, 'v) server" where
  "equals_loop [] to_put_back s =
     s\<lparr>equals_handlers := put_all to_put_back (equals_handlers s)\<rparr>"
| "equals_loop ((key, v, ipc_path) # es) to_put_back s =
     (if dict_get (state s) key = v then equals_loop es to_put_back (push ipc_path (OBool True) s)
      else equals_loop es (to_put_back @ [(key, v, ipc_path)]) s)"

definition resolve_equals_handler :: "('k, 'v) server \<Rightarrow> ('k, 'v) server" where
  "resolve_equals_handler s =
     (let (entries, emptied) = drain (equals_handlers s)
      in equals_loop entries [] (s\<lparr>equals_handlers := emptied\<rparr>))"

text \<open>
  A predicate is client code and may raise. The exception leaves the loop at once:
  the queue stays as \<open>drain\<close> left it, and \<open>to_put_back\<close> is dropped.
\<close>

fun condition_loop ::
  "('k, 'v) condition_entry list \<Rightarrow> ('k, 'v) condition_entry list \<Rightarrow> ('k, 'v) server \<Rightarrow>
   ('k, 'v) outcome" where
  "condition_loop [] to_put_back s =
     (None, s\<lparr>condition_handlers := put_all to_put_back (condition_handlers s)\<rparr>)"
| "condition_loop ((ipc_path, test_fn, args, kwargs) # es) to_put_back s =
     (case test_fn (state s) args kwargs of
        Inl e \<Rightarrow> (Some e, s)
      | Inr b \<Rightarrow>
          if b then condition_loop es to_put_back (push ipc_path (ODict (state s)) s)
          else condition_loop es (to_put_back @ [(ipc_path, test_fn, args, kwargs)]) s)"

definition resolve_condition_handlers :: "('k, 'v) server \<Rightarrow> ('k, 'v) outcome" where
  "resolve_condition_handlers s =
     (let (entries, emptied) = drain (condition_handlers s)
      in condition_loop entries [] (s\<lparr>condition_handlers := emptied\<rparr>))"

definition resolve_all_handlers :: "('k, 'v) server \<Rightarrow> ('k, 'v) outcome" where
  "resolve_all_handlers s =
     (case resolve_condition_handlers (resolve_change_handlers (s\<lparr>sweeps := Suc (sweeps s)\<rparr>)) of
        (Some e, s') \<Rightarrow> (Some e, s')
      | (None, s') \<Rightarrow> (None, resolve_equals_handler (resolve_val_change_handlers s')))"

subsection \<open>Request handlers\<close>

definition send_state :: "ident \<Rightarrow> ('k, 'v) msg \<Rightarrow> ('k, 'v) server \<Rightarrow> ('k, 'v) outcome" where
  "send_state ident msg s = (None, reply ident (ODict (state s)) s)"

text \<open>
  \<open>lock_state\<close> replies with a fresh path and the state, then blocks on that path
  until the client sends a dictionary (\<open>msg_locked_state\<close>).
\<close>

definition lock_state :: "ident \<Rightarrow> ('k, 'v) msg \<Rightarrow> ('k, 'v) server \<Rightarrow> ('k, 'v) outcome" where
  "lock_state ident msg s =
     (let (ipc_path, s1) = get_random_ipc s;
          s2 = reply ident (OLock ipc_path (state s1)) s1;
          locked_state = msg_locked_state msg
      in if \<not> dict_eq locked_state (state s2)
         then resolve_all_handlers (s2\<lparr>state := locked_state\<rparr>)
         else (None, s2))"

text \<open>\<open>old != self.state\<close>, where \<open>old\<close> is \<open>None\<close> or a copy of the state.\<close>

fun old_ne :: "('k, 'v) pydict option \<Rightarrow> ('k, 'v) pydict \<Rightarrow> bool" where
  "old_ne None d = True"
| "old_ne (Some old) d = (\<not> dict_eq old d)"

definition get_state_callable :: "ident \<Rightarrow> ('k, 'v) msg \<Rightarrow> ('k, 'v) server \<Rightarrow> ('k, 'v) outcome" where
  "get_state_callable ident msg s =
     (case msg_call msg of
        None \<Rightarrow> (Some KeyError, s)
      | Some c \<Rightarrow>
          let can_mutate = (attr_name c \<in> set ACTIONS_THAT_MUTATE);
              old = (if can_mutate then Some (state s) else None)
          in (case dict_call c (state s) of
                (Inl e, d) \<Rightarrow> (Some e, s\<lparr>state := d\<rparr>)
              | (Inr result, d) \<Rightarrow>
                  (let s1 = reply ident result (s\<lparr>state := d\<rparr>)
                   in if can_mutate \<and> old_ne old (state s1) then resolve_all_handlers s1
                      else (None, s1))))"

definition get_state_attr :: "ident \<Rightarrow> ('k, 'v) msg \<Rightarrow> ('k, 'v) server \<Rightarrow> ('k, 'v) outcome" where
  "get_state_attr ident msg s =
     (case msg_call msg of
        None \<Rightarrow> (Some KeyError, s)
      | Some (NoAttr n) \<Rightarrow> (Some AttributeError, s)
      | Some c \<Rightarrow> (None, reply ident (OAttr (attr_name c)) s))"

definition add_change_handler :: "ident \<Rightarrow> ('k, 'v) msg \<Rightarrow> ('k, 'v) server \<Rightarrow> ('k, 'v) outcome" where
  "add_change_handler ident msg s =
     (let (ipc_path, s1) = get_random_ipc s;
          s2 = reply ident (OPath ipc_path) s1
      in case msg_keys msg of
           None \<Rightarrow> (Some KeyError, s2)
         | Some keys \<Rightarrow>
             let s3 =
               (if length keys \<noteq> 0
                then s2\<lparr>change_handlers :=
                         dd_put (Keys keys) (ipc_path, BList (get_keys_cmp s2 keys))
                           (change_handlers s2)\<rparr>
                else s2\<lparr>change_handlers :=
                         dd_put Any (ipc_path, BDict (state s2)) (change_handlers s2)\<rparr>)
             in (None, resolve_change_handlers s3))"

definition add_val_change_handler :: "ident \<Rightarrow> ('k, 'v) msg \<Rightarrow> ('k, 'v) server \<Rightarrow> ('k, 'v) outcome" where
  "add_val_change_handler ident msg s =
     (let (ipc_path, s1) = get_random_ipc s;
          s2 = reply ident (OPath ipc_path) s1
      in case msg_key msg of
           None \<Rightarrow> (Some KeyError, s2)
         | Some key \<Rightarrow>
             let old_value = (case msg_value msg of Some v \<Rightarrow> v | None \<Rightarrow> dict_get (state s2) key);
                 s3 = s2\<lparr>val_change_handlers :=
                          dd_put key (ipc_path, old_value) (val_change_handlers s2)\<rparr>
             in (None, resolve_val_change_handlers s3))"

definition add_equals_handler :: "ident \<Rightarrow> ('k, 'v) msg \<Rightarrow> ('k, 'v) server \<Rightarrow> ('k, 'v) outcome" where
  "add_equals_handler ident msg s =
     (let (ipc_path, s1) = get_random_ipc s;
          s2 = reply ident (OPath ipc_path) s1
      in case msg_key msg of
           None \<Rightarrow> (Some KeyError, s2)
         | Some key \<Rightarrow>
             (case msg_value msg of
                None \<Rightarrow> (Some KeyError, s2)
              | Some v \<Rightarrow>
                  (None, resolve_equals_handler
                           (s2\<lparr>equals_handlers := put (key, v, ipc_path) (equals_handlers s2)\<rparr>))))"

definition add_condition_handler :: "ident \<Rightarrow> ('k, 'v) msg \<Rightarrow> ('k, 'v) server \<Rightarrow> ('k, 'v) outcome" where
  "add_condition_handler ident msg s =
     (let (ipc_path, s1) = get_random_ipc s;
          s2 = reply ident (OPath ipc_path) s1
      in case msg_testfn msg of
           None \<Rightarrow> (Some KeyError, s2)
         | Some test_fn \<Rightarrow>
             (case msg_args msg of
                None \<Rightarrow> (Some KeyError, s2)
              | Some args \<Rightarrow>
                  (case msg_kwargs msg of
                     None \<Rightarrow> (Some KeyError, s2)
                   | Some kwargs \<Rightarrow>
                       resolve_condition_handlers
                         (s2\<lparr>condition_handlers :=
                               put (ipc_path, test_fn, args, kwargs) (condition_handlers s2)\<rparr>))))"

subsection \<open>The main loop\<close>

text \<open>
  The loop calls \<open>getattr(server, msg['action'])(ident, msg)\<close>: whatever attribute of
  the server object bears the name. Besides the eight handlers these are
  \<open>reply\<close>, which sends the request back to its sender; \<open>push\<close>, which binds a
  socket to the client's identity and sends the request there, without any reply,
  or raises in \<open>bind\<close> when the identity is no address;
  \<open>__subclasshook__\<close>, which every object inherits, takes any arguments and
  returns; and the other methods and fields of the class and of \<open>object\<close>, none
  of which can be called with two arguments. Any other name has no attribute.
\<close>

definition other_attrs :: "string list" where
  "other_attrs =
     [''__init__'', ''wait_req'', ''get_keys_cmp'', ''resolve_change_handlers'',
      ''resolve_val_change_handlers'', ''resolve_equals_handler'',
      ''resolve_condition_handlers'', ''resolve_all_handlers'',
      ''state'', ''state_lock_ident'', ''condition_handlers'', ''equals_handlers'',
      ''val_change_handlers'', ''change_handlers'', ''ctx'', ''sock'',
      ''__class__'', ''__delattr__'', ''__dict__'', ''__dir__'', ''__doc__'', ''__eq__'',
      ''__format__'', ''__ge__'', ''__getattribute__'', ''__getstate__'', ''__gt__'',
      ''__hash__'',
      ''__init_subclass__'', ''__le__'', ''__lt__'', ''__module__'', ''__ne__'', ''__new__'',
      ''__reduce__'', ''__reduce_ex__'', ''__repr__'', ''__setattr__'', ''__sizeof__'',
      ''__str__'', ''__weakref__'']"

definition call_attr ::
  "string \<Rightarrow> ident \<Rightarrow> ('k, 'v) msg \<Rightarrow> ('k, 'v) server \<Rightarrow> ('k, 'v) outcome" where
  "call_attr name ident msg s =
     (if name = ''send_state'' then send_state ident msg s
      else if name = ''lock_state'' then lock_state ident msg s
      else if name = ''get_state_callable'' then get_state_callable ident msg s
      else if name = ''get_state_attr'' then get_state_attr ident msg s
      else if name = ''add_change_handler'' then add_change_handler ident msg s
      else if name = ''add_val_change_handler'' then add_val_change_handler ident msg s
      else if name = ''add_equals_handler'' then add_equals_handler ident msg s
      else if name = ''add_condition_handler'' then add_condition_handler ident msg s
      else if name = ''reply'' then (None, reply ident (OMsg msg) s)
      else if name = ''push'' then
        (case ident of
           Ident b \<Rightarrow> (Some ZMQError, s)
         | Bindable ipc_path \<Rightarrow> (None, push ipc_path (OMsg msg) s))
      else if name = ''__subclasshook__'' then (None, s)
      else if name \<in> set other_attrs then (Some TypeError, s)
      else (Some AttributeError, s))"

text \<open>
  One turn of the loop of \<open>state_server\<close>: a missing \<open>action\<close> raises \<open>KeyError\<close>,
  and every exception is sent to the client as a \<open>ZProcServerException\<close>.
\<close>

definition mainloop :: "('k, 'v) server \<Rightarrow> ident \<times> ('k, 'v) msg \<Rightarrow> ('k, 'v) server" where
  "mainloop s req =
     (let (ident, msg) = req
      in case (case msg_action msg of
                 None \<Rightarrow> (Some KeyError, s)
               | Some name \<Rightarrow> call_attr name ident msg s) of
           (None, s') \<Rightarrow> s'
         | (Some e, s') \<Rightarrow> reply ident (OExc e) s')"

text \<open>The server after a finite sequence of requests, from a given server.\<close>

definition serve :: "('k, 'v) server \<Rightarrow> (ident \<times> ('k, 'v) msg) list \<Rightarrow> ('k, 'v) server" where
  "serve s reqs = foldl mainloop s reqs"

definition state_server :: "(ident \<times> ('k, 'v) msg) list \<Rightarrow> ('k, 'v) server" where
  "state_server reqs = serve init_server reqs"

section \<open>A sweep as a partition\<close>

text \<open>
  The functions of this section are not code of the server. They say what a
  drain-and-put-back loop computes, as filters on the queue: the entries that fire,
  oldest first, and the entries that stay, in the order they had. The lemmas
  \<open>resolve_..._closed\<close> below prove that the loops compute exactly this.
\<close>

definition change_new :: "('k, 'v) pydict \<Rightarrow> 'k hkey \<Rightarrow> ('k, 'v) baseline" where
  "change_new st keys = (case keys of Any \<Rightarrow> BDict st | Keys ks \<Rightarrow> BList (map (dict_get st) ks))"

definition change_fired ::
  "('k, 'v) pydict \<Rightarrow> 'k hkey \<times> (ipc \<times> ('k, 'v) baseline) queue \<Rightarrow> (ipc \<times> ('k, 'v) pyobj) list" where
  "change_fired st item =
     map (\<lambda>e. (fst e, ODict st))
       (filter (\<lambda>e. baseline_ne (snd e) (change_new st (fst item))) (fst (drain (snd item))))"

definition change_kept ::
  "('k, 'v) pydict \<Rightarrow> 'k hkey \<times> (ipc \<times> ('k, 'v) baseline) queue \<Rightarrow>
   'k hkey \<times> (ipc \<times> ('k, 'v) baseline) queue" where
  "change_kept st item =
     (fst item, filter (\<lambda>e. \<not> baseline_ne (snd e) (change_new st (fst item))) (snd item))"

definition val_change_fired ::
  "('k, 'v) pydict \<Rightarrow> 'k \<times> (ipc \<times> 'v pyval) queue \<Rightarrow> (ipc \<times> ('k, 'v) pyobj) list" where
  "val_change_fired st item =
     map (\<lambda>e. (fst e, OValue (dict_get st (fst item))))
       (filter (\<lambda>e. snd e \<noteq> dict_get st (fst item)) (fst (drain (snd item))))"

definition val_change_kept ::
  "('k, 'v) pydict \<Rightarrow> 'k \<times> (ipc \<times> 'v pyval) queue \<Rightarrow> 'k \<times> (ipc \<times> 'v pyval) queue" where
  "val_change_kept st item = (fst item, filter (\<lambda>e. snd e = dict_get st (fst item)) (snd item))"

definition equals_fires :: "('k, 'v) pydict \<Rightarrow> 'k \<times> 'v pyval \<times> ipc \<Rightarrow> bool" where
  "equals_fires st e = (dict_get st (fst e) = fst (snd e))"

text \<open>The test of a condition entry on a state.\<close>

definition condition_test :: "('k, 'v) pydict \<Rightarrow> ('k, 'v) condition_entry \<Rightarrow> error + bool" where
  "condition_test st e = (case e of (ipc_path, test_fn, args, kwargs) \<Rightarrow> test_fn st args kwargs)"

section \<open>The reference dictionary\<close>

text \<open>
  A plain dictionary kept beside the server: every call that a request carries is
  made on it too, in the same order, and what the call returns or raises is
  ignored.
\<close>

fun reference :: "('k, 'v) pydict \<Rightarrow> (ident \<times> ('k, 'v) msg) list \<Rightarrow> ('k, 'v) pydict" where
  "reference d [] = d"
| "reference d ((ident, msg) # reqs) =
     (case msg_call msg of
        None \<Rightarrow> reference d reqs
      | Some c \<Rightarrow> reference (snd (dict_call c d)) reqs)"

text \<open>A request with the given action and no other field.\<close>

definition request :: "string \<Rightarrow> ('k, 'v) msg" where
  "request name =
     \<lparr>msg_action = Some name, msg_call = None, msg_args = None, msg_kwargs = None,
      msg_testfn = None, msg_key = None, msg_keys = None, msg_value = None,
      msg_locked_state = []\<rparr>"

definition call_request :: "('k, 'v) call \<Rightarrow> ('k, 'v) msg" where
  "call_request c = (request ''get_state_callable'')\<lparr>msg_call := Some c\<rparr>"

text \<open>
  The values of class \<open>ACTIONS\<close>, in its order. The main loop does not consult
  them. \<open>unlock_state\<close> is the one among them that names no method of the server.
\<close>

definition ACTIONS :: "string list" where
  "ACTIONS =
     [''lock_state'', ''unlock_state'', ''send_state'', ''get_state_callable'',
      ''get_state_attr'', ''add_change_handler'', ''add_val_change_handler'',
      ''add_condition_handler'', ''add_equals_handler'']"

text \<open>
  Two predicates for the examples: one that is never satisfied, and one that
  compares the value at a key with a bound, as \<open>foo_between\<close> of the example
  script does, and so raises \<open>TypeError\<close> when the key is absent (its value is
  then \<open>None\<close>).
\<close>

definition never :: "('k, 'v) testfn" where
  "never st args kwargs = Inr False"

definition above :: "'k \<Rightarrow> nat \<Rightarrow> ('k, nat) testfn" where
  "above k bound st args kwargs =
     (case dict_get st k of PyNone \<Rightarrow> Inl TypeError | PyVal n \<Rightarrow> Inr (bound < n))"

text \<open>The requests that register a watcher, with the fields their handlers read.\<close>

definition change_request :: "'k list \<Rightarrow> ('k, 'v) msg" where
  "change_request ks = (request ''add_change_handler'')\<lparr>msg_keys := Some ks\<rparr>"

definition val_change_request :: "'k \<Rightarrow> 'v pyval option \<Rightarrow> ('k, 'v) msg" where
  "val_change_request k baseline =
     (request ''add_val_change_handler'')\<lparr>msg_key := Some k, msg_value := baseline\<rparr>"

definition equals_request :: "'k \<Rightarrow> 'v pyval \<Rightarrow> ('k, 'v) msg" where
  "equals_request k v =
     (request ''add_equals_handler'')\<lparr>msg_key := Some k, msg_value := Some v\<rparr>"

definition condition_request :: "('k, 'v) testfn \<Rightarrow> ('k, 'v) msg" where
  "condition_request test_fn =
     (request ''add_condition_handler'')
       \<lparr>msg_args := Some [], msg_kwargs := Some [], msg_testfn := Some test_fn\<rparr>"

section \<open>Pending watchers and the messages on an endpoint\<close>

text \<open>
  The endpoints of the entries waiting in a registry, oldest registry item first,
  and the messages pushed so far to one endpoint. They are used to state the
  properties below; the server computes none of them.
\<close>

definition change_paths :: "('k hkey \<times> (ipc \<times> ('k, 'v) baseline) queue) list \<Rightarrow> ipc list" where
  "change_paths reg = map fst (concat (map snd reg))"

definition val_change_paths :: "('k \<times> (ipc \<times> 'v pyval) queue) list \<Rightarrow> ipc list" where
  "val_change_paths reg = map fst (concat (map snd reg))"

definition all_paths :: "('k, 'v) server \<Rightarrow> ipc list" where
  "all_paths s =
     change_paths (change_handlers s) @ map fst (condition_handlers s) @
     val_change_paths (val_change_handlers s) @ map (\<lambda>e. snd (snd e)) (equals_handlers s)"

definition notifications :: "('k, 'v) server \<Rightarrow> ipc \<Rightarrow> ('k, 'v) pyobj list" where
  "notifications s i = map snd (filter (\<lambda>p. fst p = i) (pushes s))"

text \<open>An entry with endpoint \<open>i\<close> and baseline \<open>v0\<close> waits under key \<open>k\<close>.\<close>

definition val_change_pending :: "('k, 'v) server \<Rightarrow> 'k \<Rightarrow> ipc \<Rightarrow> 'v pyval \<Rightarrow> bool" where
  "val_change_pending s k i v0 =
     list_ex (\<lambda>item. fst item = k \<and> (i, v0) \<in> set (snd item)) (val_change_handlers s)"

text \<open>
  What one sweep of the value-change registry does to the watcher with endpoint
  \<open>i\<close> and baseline \<open>v0\<close> on key \<open>k\<close>, from server \<open>s\<close> to server \<open>s'\<close>: if
  the value at \<open>k\<close> differs from \<open>v0\<close>, exactly one message, that value, has been
  added on \<open>i\<close> and no entry with endpoint \<open>i\<close> waits any more; if not, nothing
  has been added on \<open>i\<close> and the entry still waits under \<open>k\<close>.
\<close>

definition val_change_outcome ::
  "('k, 'v) server \<Rightarrow> ('k, 'v) server \<Rightarrow> 'k \<Rightarrow> ipc \<Rightarrow> 'v pyval \<Rightarrow> bool" where
  "val_change_outcome s s' k i v0 =
     (if dict_get (state s) k \<noteq> v0
      then notifications s' i = notifications s i @ [OValue (dict_get (state s) k)]
           \<and> i \<notin> set (val_change_paths (val_change_handlers s'))
      else notifications s' i = notifications s i \<and> val_change_pending s' k i v0)"

text \<open>
  What a completed sweep of all registries pushes, in order, from the server it
  starts on: the change registry item by item, the condition queue, the
  value-change registry item by item, the equals queue; each queue oldest entry
  first.
\<close>

definition condition_fired :: "('k, 'v) server \<Rightarrow> (ipc \<times> ('k, 'v) pyobj) list" where
  "condition_fired s =
     map (\<lambda>e. (fst e, ODict (state s)))
       (filter (\<lambda>e. condition_test (state s) e = Inr True) (fst (drain (condition_handlers s))))"

definition equals_fired :: "('k, 'v) server \<Rightarrow> (ipc \<times> ('k, 'v) pyobj) list" where
  "equals_fired s =
     map (\<lambda>e. (snd (snd e), OBool True))
       (filter (equals_fires (state s)) (fst (drain (equals_handlers s))))"

definition sweep_pushes :: "('k, 'v) server \<Rightarrow> (ipc \<times> ('k, 'v) pyobj) list" where
  "sweep_pushes s =
     concat (map (change_fired (state s)) (change_handlers s)) @ condition_fired s @
     concat (map (val_change_fired (state s)) (val_change_handlers s)) @ equals_fired s"

text \<open>The server that a completed sweep of all registries leaves.\<close>

definition swept :: "('k, 'v) server \<Rightarrow> ('k, 'v) server" where
  "swept s =
     s\<lparr>change_handlers := map (change_kept (state s)) (change_handlers s),
       condition_handlers :=
         filter (\<lambda>e. condition_test (state s) e = Inr False) (condition_handlers s),
       val_change_handlers := map (val_change_kept (state s)) (val_change_handlers s),
       equals_handlers := filter (\<lambda>e. \<not> equals_fires (state s) e) (equals_handlers s),
       pushes := pushes s @ sweep_pushes s,
       sweeps := Suc (sweeps s)\<rparr>"

text \<open>
  A server for the examples: key 1 holds 5; an equals watcher waits for 6 and
  another for 5, a condition watcher with the predicate \<open>never\<close>, and a
  value-change watcher on key 1 with baseline \<open>None\<close>.
\<close>

definition example_server :: "(nat, nat) server" where
  "example_server =
     init_server
       \<lparr>state := [(1, PyVal 5)],
        condition_handlers := [(Ipc 1, never, [], [])],
        equals_handlers := [(1, PyVal 5, Ipc 3), (1, PyVal 6, Ipc 2)],
        val_change_handlers := [(1, [(Ipc 0, PyNone)])],
        uuid_clock := 4\<rparr>"

text \<open>
  A server on which key 1 holds 0 and one value-change watcher waits on key 1
  with baseline 0.
\<close>

definition watching_server :: "(nat, nat) server" where
  "watching_server =
     init_server
       \<lparr>state := [(1, PyVal 0)], val_change_handlers := [(1, [(Ipc 0, PyVal 0)])],
        uuid_clock := 1\<rparr>"

section \<open>Properties of the resolvers\<close>

lemma put_all_eq: "put_all xs q = rev xs @ q"
  unfolding put_all_def put_def by (induction xs arbitrary: q) auto

lemma equals_loop_closed:
  "equals_loop es tpb s =
     s\<lparr>equals_handlers :=
          put_all (tpb @ filter (\<lambda>(k, v, i). dict_get (state s) k \<noteq> v) es) (equals_handlers s),
       pushes := pushes s @ map (\<lambda>(k, v, i). (i, OBool True))
                   (filter (\<lambda>(k, v, i). dict_get (state s) k = v) es)\<rparr>"
  by (induction es arbitrary: tpb s) (auto simp: push_def)

lemma val_change_loop_closed:
  "val_change_loop key new es tpb s =
     (tpb @ filter (\<lambda>(i, old). old = new) es,
      s\<lparr>pushes := pushes s @ map (\<lambda>(i, old). (i, OValue (dict_get (state s) key)))
                   (filter (\<lambda>(i, old). old \<noteq> new) es)\<rparr>)"
  by (induction es arbitrary: tpb s) (auto simp: push_def)

lemma change_loop_closed:
  "change_loop new es tpb s =
     (tpb @ filter (\<lambda>(i, old). \<not> baseline_ne old new) es,
      s\<lparr>pushes := pushes s @ map (\<lambda>(i, old). (i, ODict (state s)))
                   (filter (\<lambda>(i, old). baseline_ne old new) es)\<rparr>)"
  by (induction es arbitrary: tpb s) (auto simp: push_def)

lemma val_change_items_closed:
  "val_change_items items s =
     (map (val_change_kept (state s)) items,
      s\<lparr>pushes := pushes s @ concat (map (val_change_fired (state s)) items)\<rparr>)"
proof (induction items arbitrary: s)
  case Nil
  show ?case by simp
next
  case (Cons item items)
  obtain key q where item: "item = (key, q)" by (cases item)
  show ?case
    unfolding item
    by (simp add: Cons.IH Let_def drain_def val_change_loop_closed put_all_eq rev_filter
        val_change_kept_def val_change_fired_def case_prod_unfold)
qed

lemma change_items_closed:
  "change_items items s =
     (map (change_kept (state s)) items,
      s\<lparr>pushes := pushes s @ concat (map (change_fired (state s)) items)\<rparr>)"
proof (induction items arbitrary: s)
  case Nil
  show ?case by simp
next
  case (Cons item items)
  obtain keys q where item: "item = (keys, q)" by (cases item)
  have new: "(case keys of Any \<Rightarrow> BDict (state s) | Keys ks \<Rightarrow> BList (get_keys_cmp s ks))
             = change_new (state s) keys"
    by (cases keys) (simp_all add: change_new_def get_keys_cmp_def)
  show ?case
    unfolding item
    by (simp add: new Cons.IH Let_def drain_def change_loop_closed put_all_eq rev_filter
        change_kept_def change_fired_def case_prod_unfold del: hkey.case)
qed

lemma resolve_val_change_closed:
  "resolve_val_change_handlers s =
     s\<lparr>val_change_handlers := map (val_change_kept (state s)) (val_change_handlers s),
       pushes := pushes s @ concat (map (val_change_fired (state s)) (val_change_handlers s))\<rparr>"
  by (simp add: resolve_val_change_handlers_def val_change_items_closed)

lemma resolve_change_closed:
  "resolve_change_handlers s =
     s\<lparr>change_handlers := map (change_kept (state s)) (change_handlers s),
       pushes := pushes s @ concat (map (change_fired (state s)) (change_handlers s))\<rparr>"
  by (simp add: resolve_change_handlers_def change_items_closed)

lemma resolve_equals_closed:
  "resolve_equals_handler s =
     s\<lparr>equals_handlers := filter (\<lambda>e. \<not> equals_fires (state s) e) (equals_handlers s),
       pushes := pushes s @ map (\<lambda>e. (snd (snd e), OBool True))
                   (filter (equals_fires (state s)) (fst (drain (equals_handlers s))))\<rparr>"
proof -
  have fires: "equals_fires (state s) = (\<lambda>(k, v, i). dict_get (state s) k = v)"
    by (auto simp: equals_fires_def)
  show ?thesis
    by (simp add: resolve_equals_handler_def drain_def equals_loop_closed put_all_eq rev_filter
        fires case_prod_unfold)
qed

lemma condition_loop_closed:
  "\<forall>e \<in> set es. \<exists>b. condition_test (state s) e = Inr b \<Longrightarrow>
   condition_loop es tpb s =
     (None,
      s\<lparr>condition_handlers :=
           put_all (tpb @ filter (\<lambda>e. condition_test (state s) e = Inr False) es)
             (condition_handlers s),
        pushes := pushes s @ map (\<lambda>e. (fst e, ODict (state s)))
                    (filter (\<lambda>e. condition_test (state s) e = Inr True) es)\<rparr>)"
proof (induction es arbitrary: tpb s)
  case Nil
  show ?case by simp
next
  case (Cons e es)
  obtain i f a kw where e: "e = (i, f, a, kw)" by (cases e)
  from Cons.prems obtain b where b: "f (state s) a kw = Inr b"
    by (auto simp: e condition_test_def)
  have rest: "\<forall>e \<in> set es. \<exists>b. condition_test (state (push i (ODict (state s)) s)) e = Inr b"
    using Cons.prems by (simp add: push_def)
  show ?case
  proof (cases b)
    case True
    with b show ?thesis
      using Cons.IH[OF rest, of tpb]
      by (simp add: e condition_test_def push_def)
  next
    case False
    with b show ?thesis
      using Cons.IH[of s "tpb @ [(i, f, a, kw)]"] Cons.prems
      by (simp add: e condition_test_def)
  qed
qed

lemma resolve_condition_closed:
  "\<forall>e \<in> set (condition_handlers s). \<exists>b. condition_test (state s) e = Inr b \<Longrightarrow>
   resolve_condition_handlers s =
     (None,
      s\<lparr>condition_handlers :=
           filter (\<lambda>e. condition_test (state s) e = Inr False) (condition_handlers s),
        pushes := pushes s @ map (\<lambda>e. (fst e, ODict (state s)))
                    (filter (\<lambda>e. condition_test (state s) e = Inr True)
                       (fst (drain (condition_handlers s))))\<rparr>)"
  using condition_loop_closed[of "rev (condition_handlers s)" "s\<lparr>condition_handlers := []\<rparr>" "[]"]
  by (simp add: resolve_condition_handlers_def drain_def put_all_eq rev_filter)

subsection \<open>No resolver touches the state\<close>

lemma state_resolve_equals: "state (resolve_equals_handler s) = state s"
  by (simp add: resolve_equals_closed)

lemma state_resolve_val_change: "state (resolve_val_change_handlers s) = state s"
  by (simp add: resolve_val_change_closed)

lemma state_resolve_change: "state (resolve_change_handlers s) = state s"
  by (simp add: resolve_change_closed)

lemma state_condition_loop: "state (snd (condition_loop es tpb s)) = state s"
  by (induction es arbitrary: tpb s) (auto simp: push_def split: sum.splits)

lemma state_resolve_condition: "state (snd (resolve_condition_handlers s)) = state s"
  by (simp add: resolve_condition_handlers_def drain_def state_condition_loop)

lemma state_resolve_all: "state (snd (resolve_all_handlers s)) = state s"
proof -
  let ?s1 = "resolve_change_handlers (s\<lparr>sweeps := Suc (sweeps s)\<rparr>)"
  have "state (snd (resolve_condition_handlers ?s1)) = state s"
    by (simp add: state_resolve_condition state_resolve_change)
  then show ?thesis
    by (cases "resolve_condition_handlers ?s1")
       (auto simp: resolve_all_handlers_def state_resolve_equals state_resolve_val_change
             split: option.splits)
qed

lemma state_reply: "state (reply ident m s) = state s"
  by (simp add: reply_def)

lemma state_get_state_callable:
  "state (snd (get_state_callable ident msg s)) =
     (case msg_call msg of None \<Rightarrow> state s | Some c \<Rightarrow> snd (dict_call c (state s)))"
  by (cases "msg_call msg")
     (auto simp: get_state_callable_def Let_def state_resolve_all state_reply
           split: prod.splits sum.splits)

lemma state_mainloop_callable:
  assumes "msg_action msg = Some ''get_state_callable''"
  shows "state (mainloop s (ident, msg)) =
     (case msg_call msg of None \<Rightarrow> state s | Some c \<Rightarrow> snd (dict_call c (state s)))"
proof -
  have "state (mainloop s (ident, msg)) = state (snd (get_state_callable ident msg s))"
    using assms
    by (cases "get_state_callable ident msg s")
       (auto simp: mainloop_def call_attr_def state_reply split: option.splits)
  then show ?thesis by (simp add: state_get_state_callable)
qed

lemma state_serve_callables:
  "\<forall>r \<in> set reqs. msg_action (snd r) = Some ''get_state_callable'' \<Longrightarrow>
   state (serve s reqs) = reference (state s) reqs"
proof (induction reqs arbitrary: s)
  case Nil
  show ?case by (simp add: serve_def)
next
  case (Cons r reqs)
  obtain ident msg where r: "r = (ident, msg)" by (cases r)
  have act: "msg_action msg = Some ''get_state_callable''" using Cons.prems by (simp add: r)
  have "state (serve s (r # reqs)) = state (serve (mainloop s r) reqs)"
    by (simp add: serve_def)
  also have "\<dots> = reference (state (mainloop s r)) reqs"
    using Cons.IH Cons.prems by simp
  also have "\<dots> = reference (state s) (r # reqs)"
    by (simp add: r state_mainloop_callable[OF act] split: option.splits)
  finally show ?case .
qed

section \<open>Mutations reach the state as they reach a dictionary\<close>

text \<open>
  Claim C1. Let any sequence of \<open>get_state_callable\<close> requests be served, from any
  server, each making its call on the state (the mutating methods among them).
  A \<open>send_state\<close> request served next gets one reply: the dictionary that results
  from making the same calls, in the same order, on the reference dictionary.
\<close>

theorem send_state_equals_reference:
  assumes "\<forall>r \<in> set reqs. msg_action (snd r) = Some ''get_state_callable''"
      and "msg_action msg = Some ''send_state''"
  shows "replies (mainloop (serve s reqs) (ident, msg)) =
           replies (serve s reqs) @ [(ident, ODict (reference (state s) reqs))]"
  using assms(2) state_serve_callables[OF assms(1), of s]
  by (simp add: mainloop_def call_attr_def send_state_def reply_def)

theorem send_state_equals_reference_witness:
  "list_all (\<lambda>r. msg_action (snd r) = Some ''get_state_callable'')
      [(Ident ''w1'', call_request (SetItem (1::nat) (PyVal (5::nat)))),
       (Ident ''w2'', call_request (Update [Item 2 (PyVal 6), Item 1 PyNone])),
       (Ident ''w1'', call_request (Pop 3 None)),
       (Ident ''w1'', call_request PopItem)]
   \<and> msg_action (request ''send_state'' :: (nat, nat) msg) = Some ''send_state''
   \<and> replies (mainloop (serve init_server
               [(Ident ''w1'', call_request (SetItem (1::nat) (PyVal (5::nat)))),
               (Ident ''w2'', call_request (Update [Item 2 (PyVal 6), Item 1 PyNone])),
               (Ident ''w1'', call_request (Pop 3 None)),
               (Ident ''w1'', call_request PopItem)]) (Ident ''w3'', request ''send_state''))
     = [(Ident ''w1'', OValue PyNone), (Ident ''w2'', OValue PyNone), (Ident ''w1'', OExc KeyError),
        (Ident ''w1'', OItem 2 (PyVal 6)), (Ident ''w3'', ODict [(1, PyNone)])]"
  using send_state_equals_reference[of
      "[(Ident ''w1'', call_request (SetItem (1::nat) (PyVal (5::nat)))),
               (Ident ''w2'', call_request (Update [Item 2 (PyVal 6), Item 1 PyNone])),
               (Ident ''w1'', call_request (Pop 3 None)),
               (Ident ''w1'', call_request PopItem)]" "request ''send_state''" init_server "Ident ''w3''"]
  by (simp add: call_request_def request_def serve_def mainloop_def call_attr_def
      get_state_callable_def ACTIONS_THAT_MUTATE_def init_server_def reply_def dict_eq_def
      resolve_all_handlers_def resolve_change_closed resolve_val_change_closed resolve_equals_closed
      resolve_condition_closed drain_def dict_remove_def)

text \<open>The equations that evaluate a run of the server on given requests.\<close>

lemmas serve_simps =
  serve_def state_server_def mainloop_def call_attr_def request_def call_request_def
  init_server_def reply_def push_def put_def drain_def get_random_ipc_def get_ipc_path_def
  get_state_callable_def ACTIONS_THAT_MUTATE_def dict_eq_def dict_get_def dict_remove_def
  resolve_all_handlers_def resolve_change_closed resolve_val_change_closed
  resolve_equals_closed resolve_condition_handlers_def put_all_eq
  change_fired_def change_kept_def change_new_def val_change_fired_def val_change_kept_def
  equals_fires_def send_state_def lock_state_def get_state_attr_def add_change_handler_def
  add_val_change_handler_def add_equals_handler_def add_condition_handler_def

section \<open>When a call on the state runs the sweep\<close>

lemma sweeps_condition_loop: "sweeps (snd (condition_loop es tpb s)) = sweeps s"
  by (induction es arbitrary: tpb s) (auto simp: push_def split: sum.splits)

lemma sweeps_resolve_condition: "sweeps (snd (resolve_condition_handlers s)) = sweeps s"
  by (simp add: resolve_condition_handlers_def drain_def sweeps_condition_loop)

lemma sweeps_resolve_all: "sweeps (snd (resolve_all_handlers s)) = Suc (sweeps s)"
proof -
  let ?s1 = "resolve_change_handlers (s\<lparr>sweeps := Suc (sweeps s)\<rparr>)"
  have "sweeps (snd (resolve_condition_handlers ?s1)) = Suc (sweeps s)"
    by (simp add: sweeps_resolve_condition resolve_change_closed)
  then show ?thesis
    by (cases "resolve_condition_handlers ?s1")
       (auto simp: resolve_all_handlers_def resolve_equals_closed resolve_val_change_closed
             split: option.splits)
qed

lemma sweeps_get_state_callable:
  "sweeps (snd (get_state_callable ident msg s)) =
     (case msg_call msg of
        None \<Rightarrow> sweeps s
      | Some c \<Rightarrow>
          if attr_name c \<in> set ACTIONS_THAT_MUTATE \<and> \<not> isl (fst (dict_call c (state s)))
             \<and> \<not> dict_eq (state s) (snd (dict_call c (state s)))
          then Suc (sweeps s) else sweeps s)"
  by (cases "msg_call msg")
     (auto simp: get_state_callable_def Let_def sweeps_resolve_all reply_def
           split: prod.splits sum.splits)

text \<open>
  What the handler does, as an equation on the number of sweeps: the sweep runs,
  once, exactly when the method is one of \<open>ACTIONS_THAT_MUTATE\<close>, the call has
  returned, and the state differs from the copy taken before the call.
\<close>

lemma sweeps_mainloop_callable:
  assumes "msg_action msg = Some ''get_state_callable''"
  shows "sweeps (mainloop s (ident, msg)) =
     (case msg_call msg of
        None \<Rightarrow> sweeps s
      | Some c \<Rightarrow>
          if attr_name c \<in> set ACTIONS_THAT_MUTATE \<and> \<not> isl (fst (dict_call c (state s)))
             \<and> \<not> dict_eq (state s) (snd (dict_call c (state s)))
          then Suc (sweeps s) else sweeps s)"
proof -
  have "sweeps (mainloop s (ident, msg)) = sweeps (snd (get_state_callable ident msg s))"
    using assms
    by (cases "get_state_callable ident msg s")
       (auto simp: mainloop_def call_attr_def reply_def split: option.splits)
  then show ?thesis by (simp only: sweeps_get_state_callable)
qed

text \<open>
  Claim C2 does not hold on the code. \<open>update\<close> is one of the mutating methods; given
  a sequence whose second element is no pair, it stores the first pair and then
  raises. The exception leaves \<open>get_state_callable\<close> before the comparison of the
  old state with the new one, so the state has changed and no sweep runs: in the
  run below an equals watcher on key 1 and value 5 is registered, the call sets
  key 1 to 5 and raises, and the watcher stays in its queue with nothing pushed.
  The same request without the malformed element runs the sweep and notifies the
  watcher.
\<close>

theorem update_raises_after_storing:
  "attr_name (Update [Item (1::nat) (PyVal (5::nat)), BadItem]) \<in> set ACTIONS_THAT_MUTATE
   \<and> state (state_server
        [(Ident ''w1'', equals_request (1::nat) (PyVal (5::nat))),
         (Ident ''w2'', call_request (Update [Item 1 (PyVal 5), BadItem]))])
       = [(1, PyVal 5)]
   \<and> replies (state_server
        [(Ident ''w1'', equals_request (1::nat) (PyVal (5::nat))),
         (Ident ''w2'', call_request (Update [Item 1 (PyVal 5), BadItem]))])
       = [(Ident ''w1'', OPath (Ipc 0)), (Ident ''w2'', OExc TypeError)]
   \<and> sweeps (state_server
        [(Ident ''w1'', equals_request (1::nat) (PyVal (5::nat))),
         (Ident ''w2'', call_request (Update [Item 1 (PyVal 5), BadItem]))])
       = 0
   \<and> equals_handlers (state_server
        [(Ident ''w1'', equals_request (1::nat) (PyVal (5::nat))),
         (Ident ''w2'', call_request (Update [Item 1 (PyVal 5), BadItem]))])
       = [(1, PyVal 5, Ipc 0)]
   \<and> pushes (state_server
        [(Ident ''w1'', equals_request (1::nat) (PyVal (5::nat))),
         (Ident ''w2'', call_request (Update [Item 1 (PyVal 5), BadItem]))])
       = []
   \<and> pushes (state_server
        [(Ident ''w1'', equals_request (1::nat) (PyVal (5::nat))),
         (Ident ''w2'', call_request (Update [Item 1 (PyVal 5)]))])
       = [(Ipc 0, OBool True)]"
  by (simp add: serve_simps equals_request_def add_equals_handler_def)

section \<open>Requests that name no handler\<close>

text \<open>
  Claim C7, amended. If the \<open>action\<close> field of a request is missing, or holds a name
  that is none of the eight handlers (so \<open>unlock_state\<close>, or a name outside
  \<open>ACTIONS\<close>), is neither \<open>reply\<close> nor \<open>__subclasshook__\<close>, and is not \<open>push\<close>
  sent under an identity that is an endpoint address, then the server sends the
  client exactly one reply, an error object, and nothing else changes.
\<close>

theorem unhandled_action_error_reply:
  assumes "msg_action msg = None \<or>
           (\<exists>a. msg_action msg = Some a \<and> (a \<notin> set ACTIONS \<or> a = ''unlock_state'')
                \<and> a \<noteq> ''reply'' \<and> a \<noteq> ''__subclasshook__''
                \<and> (a = ''push'' \<longrightarrow> (\<exists>b. ident = Ident b)))"
  shows "\<exists>e. mainloop s (ident, msg) = s\<lparr>replies := replies s @ [(ident, OExc e)]\<rparr>"
proof (cases "msg_action msg")
  case None
  then have "mainloop s (ident, msg) = s\<lparr>replies := replies s @ [(ident, OExc KeyError)]\<rparr>"
    by (simp add: mainloop_def reply_def)
  then show ?thesis by (rule exI)
next
  case (Some a)
  with assms have a: "a \<notin> set ACTIONS \<or> a = ''unlock_state''" "a \<noteq> ''reply''"
      "a \<noteq> ''__subclasshook__''" "a = ''push'' \<longrightarrow> (\<exists>b. ident = Ident b)"
    by auto
  from a(1) have no_handler:
    "a \<noteq> ''send_state''" "a \<noteq> ''lock_state''" "a \<noteq> ''get_state_callable''"
    "a \<noteq> ''get_state_attr''" "a \<noteq> ''add_change_handler''"
    "a \<noteq> ''add_val_change_handler''" "a \<noteq> ''add_equals_handler''"
    "a \<noteq> ''add_condition_handler''"
    by (auto simp: ACTIONS_def)
  let ?e = "if a = ''push'' then ZMQError
            else if a \<in> set other_attrs then TypeError else AttributeError"
  have "call_attr a ident msg s = (Some ?e, s)"
  proof (cases "a = ''push''")
    case True
    with a(4) obtain b where "ident = Ident b" by blast
    with True show ?thesis by (simp add: call_attr_def)
  next
    case False
    with a(2,3) no_handler show ?thesis by (simp add: call_attr_def)
  qed
  then have "mainloop s (ident, msg) = s\<lparr>replies := replies s @ [(ident, OExc ?e)]\<rparr>"
    using Some by (simp add: mainloop_def reply_def)
  then show ?thesis by (rule exI)
qed

theorem unhandled_action_error_reply_witness:
  "msg_action ((request ''x'' :: (nat, nat) msg)\<lparr>msg_action := None\<rparr>) = None
   \<and> (\<exists>e. mainloop init_server (Ident ''w'', (request ''x'' :: (nat, nat) msg)\<lparr>msg_action := None\<rparr>)
          = init_server\<lparr>replies := replies init_server @ [(Ident ''w'', OExc e)]\<rparr>)
   \<and> (\<exists>e. mainloop init_server (Ident ''w'', request ''unlock_state'' :: (nat, nat) msg)
          = init_server\<lparr>replies := replies init_server @ [(Ident ''w'', OExc e)]\<rparr>)
   \<and> (\<exists>e. mainloop init_server (Ident ''w'', request ''push'' :: (nat, nat) msg)
          = init_server\<lparr>replies := replies init_server @ [(Ident ''w'', OExc e)]\<rparr>)"
  using unhandled_action_error_reply[where msg = "(request ''x'' :: (nat, nat) msg)\<lparr>msg_action := None\<rparr>"
          and s = init_server and ident = "Ident ''w''"]
        unhandled_action_error_reply[where msg = "request ''unlock_state'' :: (nat, nat) msg"
          and s = init_server and ident = "Ident ''w''"]
        unhandled_action_error_reply[where msg = "request ''push'' :: (nat, nat) msg"
          and s = init_server and ident = "Ident ''w''"]
  by (simp add: request_def ACTIONS_def)

text \<open>
  The claim as it was stated fails for \<open>reply\<close>: the name is not in the table, it
  is a method of the server that takes an identity and a message, and the loop
  calls it. The client receives its own request, not an error object.
\<close>

theorem unhandled_action_counterexample:
  "''reply'' \<notin> set ACTIONS
   \<and> mainloop init_server (Ident ''w'', request ''reply'' :: (nat, nat) msg)
       = init_server\<lparr>replies := [(Ident ''w'', OMsg (request ''reply''))]\<rparr>"
  by (simp add: ACTIONS_def mainloop_def call_attr_def reply_def request_def init_server_def)

text \<open>
  \<open>push\<close> under an identity that is an address sends the request to that address
  and replies nothing; \<open>__subclasshook__\<close> does nothing at all.
\<close>

lemma push_action_bindable:
  "msg_action msg = Some ''push'' \<Longrightarrow>
   mainloop s (Bindable a, msg) = s\<lparr>pushes := pushes s @ [(a, OMsg msg)]\<rparr>"
  by (simp add: mainloop_def call_attr_def push_def)

lemma subclasshook_action:
  "msg_action msg = Some ''__subclasshook__'' \<Longrightarrow> mainloop s (ident, msg) = s"
  by (simp add: mainloop_def call_attr_def)

section \<open>A predicate that raises\<close>

lemma condition_loop_raise:
  "fst (condition_loop es tpb s) = Some e \<Longrightarrow>
   condition_handlers (snd (condition_loop es tpb s)) = condition_handlers s"
  by (induction es arbitrary: tpb s) (auto simp: push_def split: sum.splits if_splits)

lemma resolve_condition_raise:
  "fst (resolve_condition_handlers s) = Some e \<Longrightarrow>
   condition_handlers (snd (resolve_condition_handlers s)) = []"
  using condition_loop_raise[of "rev (condition_handlers s)" "[]" "s\<lparr>condition_handlers := []\<rparr>" e]
  by (simp add: resolve_condition_handlers_def drain_def)

lemma resolve_condition_empty:
  "condition_handlers s = [] \<Longrightarrow> resolve_condition_handlers s = (None, s)"
  by (simp add: resolve_condition_handlers_def drain_def put_all_eq)

lemma resolve_all_raise:
  assumes "fst (resolve_all_handlers s) = Some e"
  shows "condition_handlers (snd (resolve_all_handlers s)) = []"
proof -
  let ?s1 = "resolve_change_handlers (s\<lparr>sweeps := Suc (sweeps s)\<rparr>)"
  obtain r s2 where c: "resolve_condition_handlers ?s1 = (r, s2)"
    by (cases "resolve_condition_handlers ?s1")
  with assms have r: "r = Some e" and all: "resolve_all_handlers s = (Some e, s2)"
    by (auto simp: resolve_all_handlers_def split: option.splits)
  from resolve_condition_raise[of ?s1 e] c r have "condition_handlers s2 = []" by simp
  with all show ?thesis by simp
qed

lemma resolve_all_no_conditions:
  "condition_handlers s = [] \<Longrightarrow> fst (resolve_all_handlers s) = None"
  by (simp add: resolve_all_handlers_def resolve_condition_empty resolve_change_closed)

lemma condition_loop_raises:
  "w \<in> set es \<Longrightarrow> condition_test (state s) w = Inl e \<Longrightarrow>
   \<exists>e'. fst (condition_loop es tpb s) = Some e'"
proof (induction es arbitrary: tpb s)
  case Nil
  then show ?case by simp
next
  case (Cons x es)
  obtain i f a kw where x: "x = (i, f, a, kw)" by (cases x)
  show ?case
  proof (cases "f (state s) a kw")
    case (Inl e0)
    then show ?thesis by (simp add: x)
  next
    case (Inr b)
    with Cons.prems have "w \<in> set es" by (auto simp: x condition_test_def)
    moreover have "condition_test (state (push i (ODict (state s)) s)) w = Inl e"
      using Cons.prems(2) by (simp add: push_def)
    ultimately show ?thesis
      using Cons.IH[of "push i (ODict (state s)) s" tpb] Cons.IH[of s "tpb @ [(i, f, a, kw)]"]
        Cons.prems(2) Inr
      by (simp add: x)
  qed
qed

lemma resolve_all_raises:
  assumes "w \<in> set (condition_handlers s)" and "condition_test (state s) w = Inl e"
  shows "\<exists>e'. fst (resolve_all_handlers s) = Some e'"
proof -
  let ?s1 = "resolve_change_handlers (s\<lparr>sweeps := Suc (sweeps s)\<rparr>)"
  have "\<exists>e'. fst (condition_loop (rev (condition_handlers s)) [] (?s1\<lparr>condition_handlers := []\<rparr>))
           = Some e'"
    using assms by (intro condition_loop_raises[of w]) (simp_all add: resolve_change_closed)
  then obtain e' where "fst (resolve_condition_handlers ?s1) = Some e'"
    by (auto simp: resolve_condition_handlers_def drain_def resolve_change_closed)
  then have "fst (resolve_all_handlers s) = Some e'"
    by (cases "resolve_condition_handlers ?s1") (simp add: resolve_all_handlers_def)
  then show ?thesis by blast
qed

lemma condition_loop_first_raise:
  "\<forall>x \<in> set pre. \<exists>b. condition_test (state s) x = Inr b \<Longrightarrow>
   condition_test (state s) w = Inl e \<Longrightarrow>
   fst (condition_loop (pre @ w # post) tpb s) = Some e"
proof (induction pre arbitrary: tpb s)
  case Nil
  obtain i f a kw where w: "w = (i, f, a, kw)" by (cases w)
  with Nil show ?case by (simp add: condition_test_def)
next
  case (Cons x pre)
  obtain i f a kw where x: "x = (i, f, a, kw)" by (cases x)
  from Cons.prems(1) obtain b where b: "f (state s) a kw = Inr b"
    by (auto simp: x condition_test_def)
  have pushed: "\<forall>x \<in> set pre. \<exists>b. condition_test (state (push i (ODict (state s)) s)) x = Inr b"
    "condition_test (state (push i (ODict (state s)) s)) w = Inl e"
    using Cons.prems by (simp_all add: push_def)
  have kept: "\<forall>x \<in> set pre. \<exists>b. condition_test (state s) x = Inr b"
    using Cons.prems(1) by simp
  show ?case
  proof (cases b)
    case True
    with b Cons.IH[OF pushed, of tpb] show ?thesis by (simp add: x)
  next
    case False
    with b Cons.IH[OF kept Cons.prems(2), of "tpb @ [(i, f, a, kw)]"] show ?thesis
      by (simp add: x)
  qed
qed

lemma resolve_condition_first_raise:
  assumes "fst (drain (condition_handlers s)) = pre @ w # post"
      and "\<forall>x \<in> set pre. \<exists>b. condition_test (state s) x = Inr b"
      and "condition_test (state s) w = Inl e"
  shows "fst (resolve_condition_handlers s) = Some e"
  using assms condition_loop_first_raise[of pre "s\<lparr>condition_handlers := []\<rparr>" w e post "[]"]
  by (simp add: resolve_condition_handlers_def drain_def)

lemma resolve_all_first_raise:
  assumes "fst (drain (condition_handlers s)) = pre @ w # post"
      and "\<forall>x \<in> set pre. \<exists>b. condition_test (state s) x = Inr b"
      and "condition_test (state s) w = Inl e"
  shows "fst (resolve_all_handlers s) = Some e"
proof -
  let ?s1 = "resolve_change_handlers (s\<lparr>sweeps := Suc (sweeps s)\<rparr>)"
  have "fst (resolve_condition_handlers ?s1) = Some e"
    using assms by (intro resolve_condition_first_raise[of _ pre w post])
      (simp_all add: resolve_change_closed)
  then show ?thesis
    by (cases "resolve_condition_handlers ?s1") (simp add: resolve_all_handlers_def)
qed

text \<open>
  Claim C6, amended. If the predicate of a condition watcher raises an exception
  during a sweep, that watcher is not put back: the exception is the outcome of
  the sweep, and when the sweep has ended the watcher is no longer in the condition
  queue. This holds for the sweep of all registries and for the sweep of the
  condition registry that a registration runs. The watcher whose predicate raises
  is the first, in the order in which the sweep evaluates the drained entries,
  whose predicate does not return.
\<close>

theorem raising_watcher_not_requeued:
  assumes "fst (drain (condition_handlers s)) = pre @ w # post"
      and "\<forall>x \<in> set pre. \<exists>b. condition_test (state s) x = Inr b"
      and "condition_test (state s) w = Inl e"
  shows "fst (resolve_all_handlers s) = Some e
         \<and> w \<notin> set (condition_handlers (snd (resolve_all_handlers s)))
         \<and> fst (resolve_condition_handlers s) = Some e
         \<and> w \<notin> set (condition_handlers (snd (resolve_condition_handlers s)))"
proof -
  have all: "fst (resolve_all_handlers s) = Some e"
    using assms by (rule resolve_all_first_raise)
  have cond: "fst (resolve_condition_handlers s) = Some e"
    using assms by (rule resolve_condition_first_raise)
  from resolve_all_raise[OF all] resolve_condition_raise[OF cond] all cond
  show ?thesis by simp
qed

theorem raising_watcher_not_requeued_witness:
  "fst (drain (condition_handlers
       ((init_server :: (nat, nat) server)
          \<lparr>condition_handlers := [(Ipc 1, above (1::nat) 3, [], []), (Ipc 0, never, [], [])]\<rparr>)))
     = [(Ipc 0, never, [], [])] @ (Ipc 1, above (1::nat) 3, [], []) # []
   \<and> list_all (\<lambda>x. condition_test [] x = Inr False) [(Ipc 0, never :: (nat, nat) testfn, [], [])]
   \<and> condition_test [] (Ipc 1, above (1::nat) 3, [], []) = Inl TypeError
   \<and> fst (resolve_all_handlers
       ((init_server :: (nat, nat) server)
          \<lparr>condition_handlers := [(Ipc 1, above (1::nat) 3, [], []), (Ipc 0, never, [], [])]\<rparr>))
       = Some TypeError
   \<and> (Ipc 1, above (1::nat) 3, [], []) \<notin> set (condition_handlers (snd (resolve_all_handlers
       ((init_server :: (nat, nat) server)
          \<lparr>condition_handlers := [(Ipc 1, above (1::nat) 3, [], []), (Ipc 0, never, [], [])]\<rparr>))))"
proof -
  let ?s = "(init_server :: (nat, nat) server)
          \<lparr>condition_handlers := [(Ipc 1, above (1::nat) 3, [], []), (Ipc 0, never, [], [])]\<rparr>"
  have drained: "fst (drain (condition_handlers ?s))
      = [(Ipc 0, never, [], [])] @ (Ipc 1, above (1::nat) 3, [], []) # []"
    by (simp add: drain_def)
  have before: "\<forall>x \<in> set [(Ipc 0, never :: (nat, nat) testfn, [], [])].
      \<exists>b. condition_test (state ?s) x = Inr b"
    by (auto simp: condition_test_def never_def)
  have raises: "condition_test (state ?s) (Ipc 1, above (1::nat) 3, [], []) = Inl TypeError"
    by (simp add: init_server_def condition_test_def above_def dict_get_def)
  from raising_watcher_not_requeued[OF drained before raises] drained raises
  show ?thesis
    by (simp add: init_server_def condition_test_def never_def)
qed

text \<open>
  The claim as it was stated fails on the run below: a watcher is registered while
  key 1 holds a value, \<open>clear\<close> removes the key, and the sweep that follows raises
  in the watcher's predicate (the client is sent the error). After that request
  the condition queue is empty, and the next sweep raises nothing.
\<close>

theorem raising_watcher_counterexample:
  "replies (state_server
      [(Ident ''w1'', call_request (SetItem (1::nat) (PyVal (2::nat)))),
       (Ident ''w2'', condition_request (above 1 3)),
       (Ident ''w1'', call_request Clear)])
     = [(Ident ''w1'', OValue PyNone), (Ident ''w2'', OPath (Ipc 0)), (Ident ''w1'', OValue PyNone),
        (Ident ''w1'', OExc TypeError)]
   \<and> condition_handlers (state_server
      [(Ident ''w1'', call_request (SetItem (1::nat) (PyVal (2::nat)))),
       (Ident ''w2'', condition_request (above 1 3)),
       (Ident ''w1'', call_request Clear)]) = []
   \<and> fst (resolve_all_handlers (state_server
      [(Ident ''w1'', call_request (SetItem (1::nat) (PyVal (2::nat)))),
       (Ident ''w2'', condition_request (above 1 3)),
       (Ident ''w1'', call_request Clear)])) = None"
  by (simp add: serve_simps condition_request_def add_condition_handler_def above_def)

section \<open>Watchers lost to another watcher's exception\<close>

text \<open>
  Claim C4 does not hold on the code. Two condition watchers are registered; the
  predicate of the first is never satisfied, the predicate of the second raises.
  The sweep run by the second registration drains the queue, puts the first entry
  aside in \<open>to_put_back\<close>, and is left by the exception before anything is put
  back: the first watcher is in no queue, and nothing was pushed to its endpoint.
\<close>

theorem pending_watcher_lost_on_raise:
  "replies (state_server
      [(Ident ''w1'', condition_request never),
       (Ident ''w2'', condition_request (above (1::nat) 3))])
     = [(Ident ''w1'', OPath (Ipc 0)), (Ident ''w2'', OPath (Ipc 1)), (Ident ''w2'', OExc TypeError)]
   \<and> condition_handlers (state_server
      [(Ident ''w1'', condition_request never),
       (Ident ''w2'', condition_request (above (1::nat) 3))]) = []
   \<and> pushes (state_server
      [(Ident ''w1'', condition_request never),
       (Ident ''w2'', condition_request (above (1::nat) 3))]) = []
   \<and> condition_handlers (state_server [(Ident ''w1'', condition_request never)])
       = [(Ipc 0, never, [], [])]"
  by (simp add: serve_simps condition_request_def add_condition_handler_def above_def never_def)

section \<open>One entry in a sweep of the value-change registry\<close>

lemma filter_fst_unique:
  "distinct (map fst xs) \<Longrightarrow> (i, v) \<in> set xs \<Longrightarrow> filter (\<lambda>e. fst e = i) xs = [(i, v)]"
proof (induction xs)
  case Nil
  then show ?case by simp
next
  case (Cons x xs)
  show ?case
  proof (cases "fst x = i")
    case True
    with Cons.prems have notin: "i \<notin> fst ` set xs" by auto
    with Cons.prems True have x: "x = (i, v)" by (cases x) (auto simp: image_iff)
    from notin have "filter (\<lambda>e. fst e = i) xs = []"
      by (auto simp: filter_empty_conv)
    with x show ?thesis by simp
  next
    case False
    with Cons show ?thesis by auto
  qed
qed

lemma val_change_fired_paths:
  "fst ` set (val_change_fired st item) \<subseteq> fst ` set (snd item)"
  by (force simp: val_change_fired_def drain_def)

lemma val_change_fired_none:
  assumes "i \<notin> set (val_change_paths reg)"
  shows "filter (\<lambda>p. fst p = i) (concat (map (val_change_fired st) reg)) = []"
proof -
  have "fst p \<noteq> i" if "item \<in> set reg" and "p \<in> set (val_change_fired st item)" for item p
  proof
    assume eq: "fst p = i"
    from that(2) val_change_fired_paths[of st item] have "fst p \<in> fst ` set (snd item)" by blast
    with that(1) eq have "i \<in> set (val_change_paths reg)"
      by (auto simp: val_change_paths_def)
    with assms show False by simp
  qed
  then show ?thesis by (auto simp: filter_empty_conv)
qed

lemma val_change_kept_paths:
  "set (val_change_paths (map (val_change_kept st) reg)) \<subseteq> set (val_change_paths reg)"
  by (auto simp: val_change_paths_def val_change_kept_def)

lemma val_change_fired_entry:
  assumes "distinct (map fst q)" and "(i, v0) \<in> set q"
  shows "filter (\<lambda>p. fst p = i) (val_change_fired st (k, q)) =
           (if v0 \<noteq> dict_get st k then [(i, OValue (dict_get st k))] else [])"
proof -
  have "filter (\<lambda>e. fst e = i) (rev q) = [(i, v0)]"
    using assms by (intro filter_fst_unique) (simp_all add: rev_map[symmetric])
  moreover have "filter (\<lambda>p. fst p = i) (val_change_fired st (k, q)) =
      map (\<lambda>e. (fst e, OValue (dict_get st k)))
        (filter (\<lambda>e. snd e \<noteq> dict_get st k) (filter (\<lambda>e. fst e = i) (rev q)))"
    by (simp add: val_change_fired_def drain_def filter_map comp_def conj_commute)
  ultimately show ?thesis by simp
qed

lemma val_change_kept_entry:
  assumes "distinct (map fst q)" and "(i, v0) \<in> set q"
  shows "i \<in> fst ` set (snd (val_change_kept st (k, q))) \<longleftrightarrow> v0 = dict_get st k"
proof
  assume "i \<in> fst ` set (snd (val_change_kept st (k, q)))"
  then obtain v where v: "(i, v) \<in> set q" "v = dict_get st k"
    by (auto simp: val_change_kept_def)
  from assms(1) v(1) assms(2) have "v = v0"
    by (meson eq_key_imp_eq_value)
  with v show "v0 = dict_get st k" by simp
next
  assume "v0 = dict_get st k"
  with assms(2) show "i \<in> fst ` set (snd (val_change_kept st (k, q)))"
    by (force simp: val_change_kept_def)
qed

text \<open>The whole registry, split at the item that holds the entry.\<close>

lemma val_change_sweep_entry:
  assumes reg: "reg = r1 @ (k, q) # r2"
      and dist: "distinct (val_change_paths reg)"
      and entry: "(i, v0) \<in> set q"
  shows "filter (\<lambda>p. fst p = i) (concat (map (val_change_fired st) reg)) =
           (if v0 \<noteq> dict_get st k then [(i, OValue (dict_get st k))] else [])"
    and "i \<in> set (val_change_paths (map (val_change_kept st) reg)) \<longleftrightarrow> v0 = dict_get st k"
proof -
  from entry have iq: "i \<in> fst ` set q" by force
  from dist have d: "distinct (val_change_paths r1 @ map fst q @ val_change_paths r2)"
    by (simp add: reg val_change_paths_def)
  then have dq: "distinct (map fst q)" by simp
  from d iq have n1: "i \<notin> set (val_change_paths r1)" and n2: "i \<notin> set (val_change_paths r2)"
    by auto
  show "filter (\<lambda>p. fst p = i) (concat (map (val_change_fired st) reg)) =
           (if v0 \<noteq> dict_get st k then [(i, OValue (dict_get st k))] else [])"
    using val_change_fired_none[OF n1, of st] val_change_fired_none[OF n2, of st]
      val_change_fired_entry[OF dq entry, of st k]
    by (simp add: reg)
  have k1: "i \<notin> set (val_change_paths (map (val_change_kept st) r1))"
    and k2: "i \<notin> set (val_change_paths (map (val_change_kept st) r2))"
    using n1 n2 val_change_kept_paths[of st r1] val_change_kept_paths[of st r2] by auto
  show "i \<in> set (val_change_paths (map (val_change_kept st) reg)) \<longleftrightarrow> v0 = dict_get st k"
    using k1 k2 val_change_kept_entry[OF dq entry, of st k]
    by (auto simp: reg val_change_paths_def)
qed

lemma val_change_pending_split:
  "val_change_pending s k i v0 \<Longrightarrow>
   \<exists>r1 q r2. val_change_handlers s = r1 @ (k, q) # r2 \<and> (i, v0) \<in> set q"
proof -
  assume "val_change_pending s k i v0"
  then obtain item where item: "item \<in> set (val_change_handlers s)" "fst item = k"
      "(i, v0) \<in> set (snd item)"
    by (auto simp: val_change_pending_def list_ex_iff)
  from split_list[OF item(1)] obtain r1 r2 where "val_change_handlers s = r1 @ item # r2"
    by blast
  with item(2,3) show ?thesis by (cases item) auto
qed

lemma val_change_sweep_outcome:
  assumes "val_change_pending s k i v0"
      and "distinct (val_change_paths (val_change_handlers s))"
  shows "val_change_outcome s (resolve_val_change_handlers s) k i v0"
proof -
  from val_change_pending_split[OF assms(1)] obtain r1 q r2
    where reg: "val_change_handlers s = r1 @ (k, q) # r2" and entry: "(i, v0) \<in> set q"
    by blast
  note sweep = val_change_sweep_entry[OF reg assms(2) entry, of "state s"]
  have notif: "notifications (resolve_val_change_handlers s) i =
      notifications s i @ map snd (if v0 \<noteq> dict_get (state s) k
                                   then [(i, OValue (dict_get (state s) k))] else [])"
    using sweep(1) by (simp add: notifications_def resolve_val_change_closed)
  have paths: "i \<in> set (val_change_paths (val_change_handlers (resolve_val_change_handlers s)))
      \<longleftrightarrow> v0 = dict_get (state s) k"
    using sweep(2) by (simp add: resolve_val_change_closed)
  show ?thesis
  proof (cases "dict_get (state s) k = v0")
    case True
    have "val_change_kept (state s) (k, q) \<in> set (val_change_handlers (resolve_val_change_handlers s))"
      by (simp add: resolve_val_change_closed reg)
    moreover have "(i, v0) \<in> set (snd (val_change_kept (state s) (k, q)))"
      using entry True by (simp add: val_change_kept_def)
    ultimately have "val_change_pending (resolve_val_change_handlers s) k i v0"
      by (force simp: val_change_pending_def list_ex_iff val_change_kept_def)
    with True notif show ?thesis
      by (simp add: val_change_outcome_def resolve_val_change_closed)
  next
    case False
    with notif paths show ?thesis
      by (auto simp: val_change_outcome_def resolve_val_change_closed)
  qed
qed

lemma set_entries_dd_put:
  "set (concat (map snd (dd_put k x reg))) = insert x (set (concat (map snd reg)))"
proof (induction reg)
  case Nil
  show ?case by (simp add: put_def)
next
  case (Cons item reg)
  obtain k' q where item: "item = (k', q)" by (cases item)
  show ?case
  proof (cases "k' = k")
    case True
    then show ?thesis by (simp add: item put_def)
  next
    case False
    then show ?thesis using Cons.IH by (simp add: item)
  qed
qed

lemma set_paths_dd_put:
  "set (map fst (concat (map snd (dd_put k x reg)))) = insert (fst x) (set (map fst (concat (map snd reg))))"
  using set_entries_dd_put[of k x reg] by (simp only: set_map image_insert)

lemma distinct_paths_dd_put:
  "distinct (map fst (concat (map snd reg))) \<Longrightarrow> fst x \<notin> set (map fst (concat (map snd reg))) \<Longrightarrow>
   distinct (map fst (concat (map snd (dd_put k x reg))))"
proof (induction reg)
  case Nil
  then show ?case by (simp add: put_def)
next
  case (Cons item reg)
  obtain k' q where item: "item = (k', q)" by (cases item)
  show ?case
  proof (cases "k' = k")
    case True
    with Cons.prems show ?thesis by (auto simp: item put_def)
  next
    case False
    have "set (map fst (concat (map snd (dd_put k x reg)))) =
        insert (fst x) (set (map fst (concat (map snd reg))))"
      by (rule set_paths_dd_put)
    with False Cons show ?thesis by (auto simp: item)
  qed
qed

lemma dd_put_pending:
  "list_ex (\<lambda>item. fst item = k \<and> x \<in> set (snd item)) (dd_put k x reg)"
  by (induction reg) (auto simp: put_def)

lemma val_change_outcome_from:
  "state s = state t \<Longrightarrow> pushes s = pushes t \<Longrightarrow>
   val_change_outcome s s' k i v0 = val_change_outcome t s' k i v0"
  by (simp add: val_change_outcome_def notifications_def)

lemma val_change_registration_outcome:
  assumes key: "msg_key msg = Some k"
      and dist: "distinct (val_change_paths (val_change_handlers s))"
      and fresh: "Ipc (uuid_clock s) \<notin> set (val_change_paths (val_change_handlers s))"
  shows "val_change_outcome s (snd (add_val_change_handler ident msg s)) k (Ipc (uuid_clock s))
           (case msg_value msg of Some v \<Rightarrow> v | None \<Rightarrow> dict_get (state s) k)"
proof -
  let ?i = "Ipc (uuid_clock s)"
  let ?v0 = "case msg_value msg of Some v \<Rightarrow> v | None \<Rightarrow> dict_get (state s) k"
  let ?s2 = "reply ident (OPath ?i) (s\<lparr>uuid_clock := Suc (uuid_clock s)\<rparr>)"
  let ?s3 = "?s2\<lparr>val_change_handlers := dd_put k (?i, ?v0) (val_change_handlers ?s2)\<rparr>"
  have res: "snd (add_val_change_handler ident msg s) = resolve_val_change_handlers ?s3"
    using key
    by (simp add: add_val_change_handler_def get_random_ipc_def get_ipc_path_def reply_def Let_def
        split: option.split)
  have pend: "val_change_pending ?s3 k ?i ?v0"
    using dd_put_pending[of k "(?i, ?v0)" "val_change_handlers s"]
    by (simp add: val_change_pending_def reply_def)
  have d3: "distinct (val_change_paths (val_change_handlers ?s3))"
    using distinct_paths_dd_put[of "val_change_handlers s" "(?i, ?v0)" k] dist fresh
    by (simp add: val_change_paths_def reply_def)
  from val_change_sweep_outcome[OF pend d3]
  have "val_change_outcome ?s3 (resolve_val_change_handlers ?s3) k ?i ?v0" .
  moreover have "state ?s3 = state s" and "pushes ?s3 = pushes s"
    by (simp_all add: reply_def)
  ultimately show ?thesis
    using val_change_outcome_from[of ?s3 s] by (simp only: res)
qed

section \<open>A completed sweep of all registries\<close>

lemma resolve_all_returns:
  assumes "fst (resolve_all_handlers s) = None"
  shows "\<forall>w \<in> set (condition_handlers s). \<exists>b. condition_test (state s) w = Inr b"
proof
  fix w assume w: "w \<in> set (condition_handlers s)"
  show "\<exists>b. condition_test (state s) w = Inr b"
  proof (cases "condition_test (state s) w")
    case (Inl e)
    from resolve_all_raises[OF w Inl] assms show ?thesis by simp
  next
    case (Inr b)
    then show ?thesis by blast
  qed
qed

lemma resolve_all_closed:
  assumes "\<forall>w \<in> set (condition_handlers s). \<exists>b. condition_test (state s) w = Inr b"
  shows "resolve_all_handlers s = (None, swept s)"
proof -
  let ?s1 = "resolve_change_handlers (s\<lparr>sweeps := Suc (sweeps s)\<rparr>)"
  have s1: "state ?s1 = state s" "condition_handlers ?s1 = condition_handlers s"
    by (simp_all add: resolve_change_closed)
  have "\<forall>w \<in> set (condition_handlers ?s1). \<exists>b. condition_test (state ?s1) w = Inr b"
    using assms by (simp only: s1)
  from resolve_condition_closed[OF this]
  show ?thesis
    by (simp add: resolve_all_handlers_def resolve_val_change_closed resolve_equals_closed
        resolve_change_closed swept_def sweep_pushes_def condition_fired_def equals_fired_def)
qed

lemma resolve_all_swept:
  "fst (resolve_all_handlers s) = None \<Longrightarrow> resolve_all_handlers s = (None, swept s)"
  by (rule resolve_all_closed) (rule resolve_all_returns)









section \<open>The order of a sweep\<close>

lemma drain_put: "fst (drain (put x q)) = fst (drain q) @ [x]"
  by (simp add: drain_def put_def)

lemma drain_filter: "fst (drain (filter P q)) = filter P (fst (drain q))"
  by (simp add: drain_def rev_filter)

lemma keys_dd_put:
  "map fst (dd_put k x reg) = (if k \<in> set (map fst reg) then map fst reg else map fst reg @ [k])"
proof (induction reg)
  case Nil
  show ?case by simp
next
  case (Cons item reg)
  obtain k' q where item: "item = (k', q)" by (cases item)
  show ?case using Cons.IH by (cases "k' = k") (simp_all add: item)
qed

text \<open>
  Claim C9, amended. A sweep of all registries that completes pushes, in this order:
  the notifications of the change registry, of the condition queue, of the
  value-change registry, of the equals queue. The condition queue and the equals
  queue are notified oldest entry first. The change registry and the value-change
  registry hold one queue for each tuple of keys, or key, in the order in which
  these were first registered; the queues are taken in that order, each of them
  oldest entry first, so an entry is notified before an older entry of a queue
  that comes later. The entries that stay keep the order they had.
\<close>

theorem sweep_order:
  assumes "\<forall>w \<in> set (condition_handlers s). \<exists>b. condition_test (state s) w = Inr b"
  shows "pushes (snd (resolve_all_handlers s)) =
           pushes s @ concat (map (change_fired (state s)) (change_handlers s)) @
           condition_fired s @
           concat (map (val_change_fired (state s)) (val_change_handlers s)) @ equals_fired s
         \<and> change_handlers (snd (resolve_all_handlers s))
             = map (change_kept (state s)) (change_handlers s)
         \<and> condition_handlers (snd (resolve_all_handlers s))
             = filter (\<lambda>e. condition_test (state s) e = Inr False) (condition_handlers s)
         \<and> val_change_handlers (snd (resolve_all_handlers s))
             = map (val_change_kept (state s)) (val_change_handlers s)
         \<and> equals_handlers (snd (resolve_all_handlers s))
             = filter (\<lambda>e. \<not> equals_fires (state s) e) (equals_handlers s)
         \<and> fst (drain (put x q)) = fst (drain q) @ [x]
         \<and> fst (drain (filter P q)) = filter P (fst (drain q))
         \<and> map fst (dd_put k y reg)
             = (if k \<in> set (map fst reg) then map fst reg else map fst reg @ [k])"
  using resolve_all_closed[OF assms] drain_put[of x q] drain_filter[of P q] keys_dd_put[of k y reg]
  by (simp add: swept_def sweep_pushes_def)

theorem sweep_order_witness:
  "list_all (\<lambda>w. condition_test (state example_server) w = Inr False)
      (condition_handlers example_server)
   \<and> pushes (snd (resolve_all_handlers example_server))
       = [(Ipc 0, OValue (PyVal 5)), (Ipc 3, OBool True)]
   \<and> equals_handlers (snd (resolve_all_handlers example_server)) = [(1, PyVal 6, Ipc 2)]"
proof -
  have returns: "\<forall>w \<in> set (condition_handlers example_server).
      \<exists>b. condition_test (state example_server) w = Inr b"
    by (auto simp: example_server_def condition_test_def never_def)
  have c1: "list_all (\<lambda>w. condition_test (state example_server) w = Inr False)
      (condition_handlers example_server)"
    by (simp add: example_server_def condition_test_def never_def)
  note order = sweep_order[OF returns, of "Ipc 0" "[]" "\<lambda>x. True" "1::nat" "Ipc 0" "[]"]
  from order have "pushes (snd (resolve_all_handlers example_server)) =
      pushes example_server @
      concat (map (change_fired (state example_server)) (change_handlers example_server)) @
      condition_fired example_server @
      concat (map (val_change_fired (state example_server)) (val_change_handlers example_server)) @
      equals_fired example_server"
    by (rule conjunct1)
  then have c2: "pushes (snd (resolve_all_handlers example_server))
      = [(Ipc 0, OValue (PyVal 5)), (Ipc 3, OBool True)]"
    by (simp add: condition_fired_def equals_fired_def example_server_def init_server_def
        condition_test_def never_def equals_fires_def val_change_fired_def drain_def dict_get_def)
  from order have "equals_handlers (snd (resolve_all_handlers example_server))
      = filter (\<lambda>e. \<not> equals_fires (state example_server) e) (equals_handlers example_server)"
    by blast
  then have c3: "equals_handlers (snd (resolve_all_handlers example_server)) = [(1, PyVal 6, Ipc 2)]"
    by (simp add: example_server_def init_server_def equals_fires_def dict_get_def)
  from c1 c2 c3 show ?thesis by blast
qed

text \<open>
  The claim as it was stated fails in the value-change registry. Three watchers are
  registered, on key 1, on key 2 and again on key 1, and get the endpoints 0, 1
  and 2 in this order; \<open>update\<close> then changes both keys. The sweep notifies
  endpoint 2 before endpoint 1.
\<close>

theorem sweep_order_counterexample:
  "replies (state_server
      [(Ident ''w1'', val_change_request (1::nat) None),
       (Ident ''w2'', val_change_request 2 None),
       (Ident ''w3'', val_change_request 1 None),
       (Ident ''w4'', call_request (Update [Item 1 (PyVal (5::nat)), Item 2 (PyVal 6)]))])
     = [(Ident ''w1'', OPath (Ipc 0)), (Ident ''w2'', OPath (Ipc 1)),
        (Ident ''w3'', OPath (Ipc 2)), (Ident ''w4'', OValue PyNone)]
   \<and> pushes (state_server
      [(Ident ''w1'', val_change_request (1::nat) None),
       (Ident ''w2'', val_change_request 2 None),
       (Ident ''w3'', val_change_request 1 None),
       (Ident ''w4'', call_request (Update [Item 1 (PyVal (5::nat)), Item 2 (PyVal 6)]))])
     = [(Ipc 0, OValue (PyVal 5)), (Ipc 2, OValue (PyVal 5)), (Ipc 1, OValue (PyVal 6))]"
  by (simp add: serve_simps val_change_request_def)

section \<open>Absent keys and None\<close>

lemma equals_none_fires:
  assumes "map_of (state s) k = None" and "(k, PyNone, i) \<in> set (equals_handlers s)"
  shows "(i, OBool True) \<in> set (pushes (resolve_equals_handler s))"
    and "(k, PyNone, i) \<notin> set (equals_handlers (resolve_equals_handler s))"
proof -
  have fires: "equals_fires (state s) (k, PyNone, i)"
    using assms(1) by (simp add: equals_fires_def dict_get_def)
  with assms(2) have "(k, PyNone, i) \<in> set (filter (equals_fires (state s)) (rev (equals_handlers s)))"
    by simp
  then show "(i, OBool True) \<in> set (pushes (resolve_equals_handler s))"
    by (force simp: resolve_equals_closed drain_def)
  from fires show "(k, PyNone, i) \<notin> set (equals_handlers (resolve_equals_handler s))"
    by (simp add: resolve_equals_closed)
qed

lemma change_registration_baseline:
  assumes "msg_keys msg = Some ks" and "ks \<noteq> []"
  shows "list_ex (\<lambda>item. fst item = Keys ks \<and>
            (Ipc (uuid_clock s), BList (map (dict_get (state s)) ks)) \<in> set (snd item))
           (change_handlers (snd (add_change_handler ident msg s)))"
proof -
  let ?e = "(Ipc (uuid_clock s), BList (map (dict_get (state s)) ks))"
  let ?reg = "dd_put (Keys ks) ?e (change_handlers s)"
  have res: "change_handlers (snd (add_change_handler ident msg s))
      = map (change_kept (state s)) ?reg"
    using assms
    by (simp add: add_change_handler_def get_random_ipc_def get_ipc_path_def reply_def Let_def
        resolve_change_closed get_keys_cmp_def)
  from dd_put_pending[of "Keys ks" ?e "change_handlers s"]
  obtain item where item: "item \<in> set ?reg" "fst item = Keys ks" "?e \<in> set (snd item)"
    by (auto simp: list_ex_iff)
  have "fst (change_kept (state s) item) = Keys ks"
    using item(2) by (simp add: change_kept_def)
  moreover have "?e \<in> set (snd (change_kept (state s) item))"
    using item(2,3) by (simp add: change_kept_def change_new_def)
  moreover have "change_kept (state s) item \<in> set (map (change_kept (state s)) ?reg)"
    using item(1) by simp
  ultimately show ?thesis
    unfolding res list_ex_iff by blast
qed

text \<open>
  Claim C10. The watchers read a key with \<open>state.get(key)\<close>, so an absent key reads
  as \<open>None\<close>. First, a sweep of the equals queue notifies an entry that waits for
  \<open>None\<close> at a key that is absent, and removes it. Second, when a key holds
  \<open>None\<close>, a sweep of the value-change registry does not notify an entry on that
  key whose baseline is \<open>None\<close>, and leaves it waiting. Third, the change watcher
  that a request with the key tuple \<open>ks\<close> registers waits under \<open>ks\<close> with
  a baseline that holds \<open>None\<close> at every absent key and the stored value at the
  others.
\<close>

theorem absent_key_reads_none:
  "(map_of (state s) k = None \<longrightarrow> (k, PyNone, i) \<in> set (equals_handlers s) \<longrightarrow>
      (i, OBool True) \<in> set (pushes (resolve_equals_handler s))
      \<and> (k, PyNone, i) \<notin> set (equals_handlers (resolve_equals_handler s)))
   \<and> (map_of (state s) k = Some PyNone \<longrightarrow> val_change_pending s k i PyNone \<longrightarrow>
      distinct (val_change_paths (val_change_handlers s)) \<longrightarrow>
      notifications (resolve_val_change_handlers s) i = notifications s i
      \<and> val_change_pending (resolve_val_change_handlers s) k i PyNone)
   \<and> (msg_keys msg = Some ks \<longrightarrow> ks \<noteq> [] \<longrightarrow>
      list_ex (\<lambda>item. fst item = Keys ks \<and>
          (Ipc (uuid_clock s),
           BList (map (\<lambda>k. case map_of (state s) k of None \<Rightarrow> PyNone | Some v \<Rightarrow> v) ks))
            \<in> set (snd item))
        (change_handlers (snd (add_change_handler ident msg s))))"
proof (intro conjI impI)
  assume "map_of (state s) k = None" and "(k, PyNone, i) \<in> set (equals_handlers s)"
  then show "(i, OBool True) \<in> set (pushes (resolve_equals_handler s))"
    and "(k, PyNone, i) \<notin> set (equals_handlers (resolve_equals_handler s))"
    by (rule equals_none_fires)+
next
  assume k: "map_of (state s) k = Some PyNone" and p: "val_change_pending s k i PyNone"
    and d: "distinct (val_change_paths (val_change_handlers s))"
  from k have "dict_get (state s) k = PyNone" by (simp add: dict_get_def)
  with val_change_sweep_outcome[OF p d]
  show "notifications (resolve_val_change_handlers s) i = notifications s i"
    and "val_change_pending (resolve_val_change_handlers s) k i PyNone"
    by (simp_all add: val_change_outcome_def)
next
  assume "msg_keys msg = Some ks" and "ks \<noteq> []"
  from change_registration_baseline[OF this, of s ident]
  show "list_ex (\<lambda>item. fst item = Keys ks \<and>
          (Ipc (uuid_clock s),
           BList (map (\<lambda>k. case map_of (state s) k of None \<Rightarrow> PyNone | Some v \<Rightarrow> v) ks))
            \<in> set (snd item))
        (change_handlers (snd (add_change_handler ident msg s)))"
    by (simp add: dict_get_def[abs_def])
qed

theorem absent_key_reads_none_witness:
  "(1::nat, PyNone, Ipc 0) \<in> set (equals_handlers
       ((init_server :: (nat, nat) server)\<lparr>equals_handlers := [(1, PyNone, Ipc 0)]\<rparr>))
   \<and> (Ipc 0, OBool True) \<in> set (pushes (resolve_equals_handler
       ((init_server :: (nat, nat) server)\<lparr>equals_handlers := [(1, PyNone, Ipc 0)]\<rparr>)))
   \<and> val_change_pending
       ((init_server :: (nat, nat) server)
          \<lparr>state := [(1, PyNone)], val_change_handlers := [(1, [(Ipc 0, PyNone)])]\<rparr>)
       1 (Ipc 0) PyNone
   \<and> notifications (resolve_val_change_handlers
       ((init_server :: (nat, nat) server)
          \<lparr>state := [(1, PyNone)], val_change_handlers := [(1, [(Ipc 0, PyNone)])]\<rparr>)) (Ipc 0)
       = []
   \<and> change_handlers (snd (add_change_handler (Ident ''w'') (change_request [1::nat, 2])
       ((init_server :: (nat, nat) server)\<lparr>state := [(2, PyVal 7)]\<rparr>)))
       = [(Keys [1, 2], [(Ipc 0, BList [PyNone, PyVal 7])])]"
  using absent_key_reads_none[of "(init_server :: (nat, nat) server)\<lparr>equals_handlers := [(1, PyNone, Ipc 0)]\<rparr>"
      1 "Ipc 0" "change_request [1::nat, 2]" "[1, 2]" "Ident ''w''"]
    absent_key_reads_none[of "(init_server :: (nat, nat) server)
          \<lparr>state := [(1, PyNone)], val_change_handlers := [(1, [(Ipc 0, PyNone)])]\<rparr>"
      1 "Ipc 0" "change_request [1::nat, 2]" "[1, 2]" "Ident ''w''"]
  by (simp add: init_server_def val_change_pending_def val_change_paths_def notifications_def
      serve_simps change_request_def get_keys_cmp_def)

section \<open>A value-change watcher from registration to notification\<close>

lemma change_fired_paths:
  "fst ` set (change_fired st item) \<subseteq> fst ` set (snd item)"
  by (force simp: change_fired_def drain_def)

lemma change_fired_none:
  assumes "i \<notin> set (change_paths reg)"
  shows "filter (\<lambda>p. fst p = i) (concat (map (change_fired st) reg)) = []"
proof -
  have "fst p \<noteq> i" if "item \<in> set reg" and "p \<in> set (change_fired st item)" for item p
  proof
    assume eq: "fst p = i"
    from that(2) change_fired_paths[of st item] have "fst p \<in> fst ` set (snd item)" by blast
    with that(1) eq have "i \<in> set (change_paths reg)"
      by (auto simp: change_paths_def)
    with assms show False by simp
  qed
  then show ?thesis by (auto simp: filter_empty_conv)
qed

lemma condition_fired_none:
  "i \<notin> fst ` set (condition_handlers s) \<Longrightarrow> filter (\<lambda>p. fst p = i) (condition_fired s) = []"
  by (force simp: condition_fired_def drain_def filter_empty_conv)

lemma equals_fired_none:
  "i \<notin> (\<lambda>e. snd (snd e)) ` set (equals_handlers s) \<Longrightarrow>
   filter (\<lambda>p. fst p = i) (equals_fired s) = []"
  by (force simp: equals_fired_def drain_def filter_empty_conv)

lemma val_change_pending_path:
  "val_change_pending s k i v0 \<Longrightarrow> i \<in> set (val_change_paths (val_change_handlers s))"
  by (force simp: val_change_pending_def val_change_paths_def list_ex_iff)

lemma val_change_outcome_to:
  "notifications s' i = notifications t' i \<Longrightarrow>
   val_change_handlers s' = val_change_handlers t' \<Longrightarrow>
   val_change_outcome s s' k i v0 = val_change_outcome s t' k i v0"
  by (simp add: val_change_outcome_def val_change_pending_def)

lemma val_change_full_sweep_outcome:
  assumes pend: "val_change_pending s k i v0"
      and dist: "distinct (all_paths s)"
      and ret: "\<forall>w \<in> set (condition_handlers s). \<exists>b. condition_test (state s) w = Inr b"
  shows "val_change_outcome s (snd (resolve_all_handlers s)) k i v0"
proof -
  from val_change_pending_path[OF pend]
  have i: "i \<in> set (val_change_paths (val_change_handlers s))" .
  with dist have n1: "i \<notin> set (change_paths (change_handlers s))"
    and n2: "i \<notin> fst ` set (condition_handlers s)"
    and n3: "i \<notin> (\<lambda>e. snd (snd e)) ` set (equals_handlers s)"
    and dv: "distinct (val_change_paths (val_change_handlers s))"
    by (auto simp: all_paths_def)
  have res: "snd (resolve_all_handlers s) = swept s"
    using resolve_all_closed[OF ret] by simp
  have "filter (\<lambda>p. fst p = i) (sweep_pushes s) =
      filter (\<lambda>p. fst p = i) (concat (map (val_change_fired (state s)) (val_change_handlers s)))"
    using change_fired_none[OF n1, of "state s"] condition_fired_none[OF n2]
      equals_fired_none[OF n3]
    by (simp add: sweep_pushes_def)
  then have "notifications (swept s) i = notifications (resolve_val_change_handlers s) i"
    by (simp add: notifications_def swept_def resolve_val_change_closed)
  moreover have "val_change_handlers (swept s) = val_change_handlers (resolve_val_change_handlers s)"
    by (simp add: swept_def resolve_val_change_closed)
  ultimately have "val_change_outcome s (swept s) k i v0
      = val_change_outcome s (resolve_val_change_handlers s) k i v0"
    by (rule val_change_outcome_to)
  with val_change_sweep_outcome[OF pend dv] res show ?thesis by simp
qed

lemma val_change_mutation_outcome:
  assumes pend: "val_change_pending s k i v0"
      and dist: "distinct (all_paths s)"
      and act: "msg_action msg = Some ''get_state_callable''"
      and call: "msg_call msg = Some c"
      and mut: "attr_name c \<in> set ACTIONS_THAT_MUTATE"
      and ret: "dict_call c (state s) = (Inr r, d)"
      and changed: "\<not> dict_eq (state s) d"
      and preds: "\<forall>w \<in> set (condition_handlers s). \<exists>b. condition_test d w = Inr b"
  shows "val_change_outcome (s\<lparr>state := d\<rparr>) (mainloop s (ident, msg)) k i v0"
proof -
  let ?s1 = "reply ident r (s\<lparr>state := d\<rparr>)"
  have p1: "val_change_pending ?s1 k i v0"
    using pend by (simp add: val_change_pending_def reply_def)
  have d1: "distinct (all_paths ?s1)"
    using dist by (simp add: all_paths_def reply_def)
  have r1: "\<forall>w \<in> set (condition_handlers ?s1). \<exists>b. condition_test (state ?s1) w = Inr b"
    using preds by (simp add: reply_def)
  have "get_state_callable ident msg s = resolve_all_handlers ?s1"
    using call mut ret changed by (simp add: get_state_callable_def Let_def reply_def)
  moreover have "resolve_all_handlers ?s1 = (None, swept ?s1)"
    using r1 by (rule resolve_all_closed)
  ultimately have "mainloop s (ident, msg) = snd (resolve_all_handlers ?s1)"
    using act by (simp add: mainloop_def call_attr_def)
  moreover from val_change_full_sweep_outcome[OF p1 d1 r1]
  have "val_change_outcome ?s1 (snd (resolve_all_handlers ?s1)) k i v0" .
  moreover have "state ?s1 = state (s\<lparr>state := d\<rparr>)" and "pushes ?s1 = pushes (s\<lparr>state := d\<rparr>)"
    by (simp_all add: reply_def)
  ultimately show ?thesis
    using val_change_outcome_from[of ?s1 "s\<lparr>state := d\<rparr>"] by simp
qed

text \<open>
  Claim C3, amended. Let the endpoints of the waiting watchers be pairwise distinct
  (every path comes from \<open>uuid1()\<close>). A value-change watcher on key \<open>k\<close> gets
  the baseline \<open>v0\<close> that the client supplied or, without one, the value of \<open>k\<close>
  at registration. Its registration runs a sweep of the value-change registry at
  once; so does every sweep of all registries that completes, as it follows a call
  of a mutating method that has returned and changed the state. Each of these
  sweeps has the outcome \<open>val_change_outcome\<close>: if the value at \<open>k\<close> (\<open>None\<close>
  when \<open>k\<close> is absent, as after a deletion) differs from \<open>v0\<close>, the watcher is
  sent that value, once, and no entry with its endpoint waits any more; if not, it
  is sent nothing and stays queued. A watcher whose supplied baseline differs from
  the value at registration is thus notified by the registration itself, before
  any mutation.
\<close>

theorem value_change_watcher_sweeps:
  "(msg_key msg = Some k \<longrightarrow> distinct (val_change_paths (val_change_handlers s)) \<longrightarrow>
      Ipc (uuid_clock s) \<notin> set (val_change_paths (val_change_handlers s)) \<longrightarrow>
      val_change_outcome s (snd (add_val_change_handler ident msg s)) k (Ipc (uuid_clock s))
        (case msg_value msg of Some v \<Rightarrow> v | None \<Rightarrow> dict_get (state s) k))
   \<and> (val_change_pending s k i v0 \<longrightarrow> distinct (val_change_paths (val_change_handlers s)) \<longrightarrow>
      val_change_outcome s (resolve_val_change_handlers s) k i v0)
   \<and> (val_change_pending s k i v0 \<longrightarrow> distinct (all_paths s) \<longrightarrow>
      msg_action msg = Some ''get_state_callable'' \<longrightarrow> msg_call msg = Some c \<longrightarrow>
      attr_name c \<in> set ACTIONS_THAT_MUTATE \<longrightarrow> dict_call c (state s) = (Inr r, d) \<longrightarrow>
      \<not> dict_eq (state s) d \<longrightarrow>
      (\<forall>w \<in> set (condition_handlers s). \<exists>b. condition_test d w = Inr b) \<longrightarrow>
      val_change_outcome (s\<lparr>state := d\<rparr>) (mainloop s (ident, msg)) k i v0)"
  using val_change_registration_outcome[of msg k s ident]
    val_change_sweep_outcome[of s k i v0]
    val_change_mutation_outcome[of s k i v0 msg c r d ident]
  by blast

theorem value_change_watcher_sweeps_witness:
  "val_change_outcome (init_server :: (nat, nat) server)
      (snd (add_val_change_handler (Ident ''w'') (val_change_request (1::nat) (Some (PyVal (0::nat))))
         init_server)) 1 (Ipc 0) (PyVal 0)
   \<and> val_change_pending watching_server 1 (Ipc 0) (PyVal 0)
   \<and> val_change_outcome watching_server (resolve_val_change_handlers watching_server)
        1 (Ipc 0) (PyVal 0)
   \<and> val_change_pending (resolve_val_change_handlers watching_server) 1 (Ipc 0) (PyVal 0)
   \<and> dict_call (DelItem 1) (state watching_server) = (Inr (OValue PyNone), [])
   \<and> val_change_outcome (watching_server\<lparr>state := []\<rparr>)
        (mainloop watching_server (Ident ''w'', call_request (DelItem 1))) 1 (Ipc 0) (PyVal 0)
   \<and> notifications (mainloop watching_server (Ident ''w'', call_request (DelItem 1))) (Ipc 0)
       = [OValue PyNone]
   \<and> val_change_handlers (mainloop watching_server (Ident ''w'', call_request (DelItem 1)))
       = [(1, [])]"
proof -
  have pend: "val_change_pending watching_server 1 (Ipc 0) (PyVal 0)"
    by (simp add: watching_server_def val_change_pending_def)
  have dist: "distinct (all_paths watching_server)"
    "distinct (val_change_paths (val_change_handlers watching_server))"
    by (simp_all add: watching_server_def all_paths_def val_change_paths_def change_paths_def
        init_server_def)
  have del: "dict_call (DelItem 1) (state watching_server) = (Inr (OValue PyNone), [])"
    by (simp add: watching_server_def dict_remove_def)
  have changed: "\<not> dict_eq (state watching_server) []"
    by (simp add: watching_server_def dict_eq_def)
  have preds: "\<forall>w \<in> set (condition_handlers watching_server). \<exists>b. condition_test [] w = Inr b"
    by (simp add: watching_server_def init_server_def)
  have reg: "val_change_outcome (init_server :: (nat, nat) server)
      (snd (add_val_change_handler (Ident ''w'') (val_change_request (1::nat) (Some (PyVal (0::nat))))
         init_server)) 1 (Ipc 0) (PyVal 0)"
    using value_change_watcher_sweeps[where msg = "val_change_request (1::nat) (Some (PyVal (0::nat)))"
        and k = 1 and s = "init_server :: (nat, nat) server" and ident = "Ident ''w''"]
    by (simp add: val_change_request_def request_def init_server_def val_change_paths_def)
  have sweep: "val_change_outcome watching_server (resolve_val_change_handlers watching_server)
        1 (Ipc 0) (PyVal 0)"
    using value_change_watcher_sweeps[where s = watching_server and k = 1 and i = "Ipc 0"
        and ?v0.0 = "PyVal 0"] pend dist(2)
    by blast
  have mutation: "val_change_outcome (watching_server\<lparr>state := []\<rparr>)
        (mainloop watching_server (Ident ''w'', call_request (DelItem 1))) 1 (Ipc 0) (PyVal 0)"
    using value_change_watcher_sweeps[where msg = "call_request (DelItem 1)" and k = 1
        and s = watching_server and ident = "Ident ''w''" and i = "Ipc 0" and ?v0.0 = "PyVal 0"
        and c = "DelItem 1" and r = "OValue PyNone" and d = "[]"] pend dist(1) del changed preds
    by (simp add: call_request_def request_def ACTIONS_THAT_MUTATE_def)
  from sweep have still: "val_change_pending (resolve_val_change_handlers watching_server)
      1 (Ipc 0) (PyVal 0)"
    by (simp add: val_change_outcome_def watching_server_def dict_get_def)
  from mutation have sent: "notifications (mainloop watching_server
      (Ident ''w'', call_request (DelItem 1))) (Ipc 0) = [OValue PyNone]"
    by (simp add: val_change_outcome_def dict_get_def notifications_def watching_server_def
        init_server_def)
  have gone: "val_change_handlers (mainloop watching_server (Ident ''w'', call_request (DelItem 1)))
       = [(1, [])]"
    by (simp add: watching_server_def serve_simps)
  from reg pend sweep still del mutation sent gone show ?thesis by blast
qed

text \<open>
  The claim as it was stated fails on a fresh server whose first request registers
  a value-change watcher on key 1 with the baseline 0: the state is empty, so the
  value at key 1 is \<open>None\<close>, and the watcher is notified by its registration. No
  mutation has taken place, and no sweep of all registries has run.
\<close>

theorem value_change_watcher_counterexample:
  "pushes (state_server [(Ident ''w'', val_change_request (1::nat) (Some (PyVal (0::nat))))])
     = [(Ipc 0, OValue PyNone)]
   \<and> state (state_server [(Ident ''w'', val_change_request (1::nat) (Some (PyVal (0::nat))))]) = []
   \<and> sweeps (state_server [(Ident ''w'', val_change_request (1::nat) (Some (PyVal (0::nat))))]) = 0
   \<and> val_change_handlers
        (state_server [(Ident ''w'', val_change_request (1::nat) (Some (PyVal (0::nat))))])
       = [(1, [])]"
  by (simp add: serve_simps val_change_request_def)

end
